theory Spec2Isabelle
  imports Main "HOL-Library.Word" "HOL-Library.Sublist" "HOL-Library.Multiset"
begin

unbundle bit_operations_syntax

section \<open>Strings and bytes\<close>

text \<open>
  A \<open>QChar\<close> is one 16-bit code unit and a \<open>QString\<close> a sequence of them; a
  \<open>QByteArray\<close> is a sequence of bytes.
\<close>

type_synonym qchar = "16 word"
type_synonym qstring = "qchar list"
type_synonym qbytearray = "8 word list"

section \<open>The 7-bit escaping codec\<close>

text \<open>
  \<^verbatim>\<open>QChar _toHex(ushort v)\<close>: the low nibble of \<open>v\<close> as a lowercase hexadecimal
  digit (\<open>0x61\<close> is \<open>'a'\<close>, \<open>0x30\<close> is \<open>'0'\<close>).
\<close>

definition toHex :: "16 word \<Rightarrow> qchar" where
  "toHex v0 = (let v = v0 AND 0x000F in if v \<ge> 10 then 0x61 + (v - 10) else 0x30 + v)"

text \<open>
  \<^verbatim>\<open>ushort _fromHex(QChar c)\<close>. The source computes the difference in \<open>int\<close> and keeps
  the low four bits; the low four bits of the 16-bit wrapped difference are the same.
\<close>

definition fromHex :: "qchar \<Rightarrow> 16 word" where
  "fromHex c = (if c \<ge> 0x61 then c - 0x61 + 10 else c - 0x30) AND 0x000F"

text \<open>
  \<^verbatim>\<open>QString _escapeTo7bit(const QString &str)\<close>: the loop over \<open>i\<close>, with the result
  built so far as accumulator. The index runs from \<open>0\<close> in steps of one, so the source's
  test \<open>i != l\<close> is \<open>i < l\<close>. \<open>0x25\<close> is \<open>'%'\<close>.
\<close>

function escapeTo7bit_loop :: "qstring \<Rightarrow> nat \<Rightarrow> qstring \<Rightarrow> qstring" where
  "escapeTo7bit_loop str i result =
     (if i < length str then
        (let uch = str ! i in
         if uch < 32 \<or> uch > 127 \<or> uch = 0x25
         then escapeTo7bit_loop str (i + 1)
                (result @ [0x25, toHex (drop_bit 12 uch), toHex (drop_bit 8 uch),
                           toHex (drop_bit 4 uch), toHex uch])
         else escapeTo7bit_loop str (i + 1) (result @ [uch]))
      else result)"
  by pat_completeness auto
termination
  by (relation "measure (\<lambda>(str, i, result). length str - i)") auto

declare escapeTo7bit_loop.simps [simp del]

definition escapeTo7bit :: "qstring \<Rightarrow> qstring" where
  "escapeTo7bit str = escapeTo7bit_loop str 0 []"

text \<open>
  \<^verbatim>\<open>QString _escapeFrom7bit(const QString &str)\<close>: an escape is decoded only when
  \<open>i + 4 < l\<close>, and then the index advances by five in all.
\<close>

function escapeFrom7bit_loop :: "qstring \<Rightarrow> nat \<Rightarrow> qstring \<Rightarrow> qstring" where
  "escapeFrom7bit_loop str i result =
     (if i < length str then
        (let ch = str ! i in
         if ch = 0x25 \<and> i + 4 < length str
         then escapeFrom7bit_loop str (i + 4 + 1)
                (result @ [push_bit 12 (fromHex (str ! (i + 1))) OR push_bit 8 (fromHex (str ! (i + 2)))
                           OR push_bit 4 (fromHex (str ! (i + 3))) OR fromHex (str ! (i + 4))])
         else escapeFrom7bit_loop str (i + 1) (result @ [ch]))
      else result)"
  by pat_completeness auto
termination
  by (relation "measure (\<lambda>(str, i, result). length str - i)") auto

declare escapeFrom7bit_loop.simps [simp del]

definition escapeFrom7bit :: "qstring \<Rightarrow> qstring" where
  "escapeFrom7bit str = escapeFrom7bit_loop str 0 []"

text \<open>
  The two loops read as functions on lists, used in the proofs below: what the encoder
  appends for one code unit, and the decoder as a recursion on the rest of the input.
\<close>

definition escapeChar :: "qchar \<Rightarrow> qstring" where
  "escapeChar uch = (if uch < 32 \<or> uch > 127 \<or> uch = 0x25
     then [0x25, toHex (drop_bit 12 uch), toHex (drop_bit 8 uch), toHex (drop_bit 4 uch), toHex uch]
     else [uch])"

fun unescapeList :: "qstring \<Rightarrow> qstring" where
  "unescapeList [] = []"
| "unescapeList (ch # rest) =
     (if ch = 0x25 \<and> 4 \<le> length rest
      then (push_bit 12 (fromHex (rest ! 0)) OR push_bit 8 (fromHex (rest ! 1))
            OR push_bit 4 (fromHex (rest ! 2)) OR fromHex (rest ! 3)) # unescapeList (drop 4 rest)
      else ch # unescapeList rest)"


section \<open>The nesting-level scheduler\<close>

text \<open>
  The scheduler fields of \<open>Sandbox\<close>: the two \<open>int\<close> counters (nesting depths,
  far from the range where an \<open>int\<close> overflows), the vector of previous loop nesting
  levels and the vector of postponed calls, each a pair of the level recorded at
  submission and the callable. A vector's \<open>back()\<close> is the last
  element of the list. Callables are opaque values of type \<open>'a\<close>; running one is
  recorded by appending the taken entry to \<open>invoked\<close> (oldest first), and a callable
  is taken not to call back into the scheduler while it runs.
\<close>

record 'a sandbox =
  eventNestingLevel :: int
  loopNestingLevel :: int
  previousLoopNestingLevels :: "int list"
  postponedCalls :: "(int \<times> 'a) list"
  invoked :: "(int \<times> 'a) list"

definition initial :: "'a sandbox" where
  "initial = \<lparr>eventNestingLevel = 0, loopNestingLevel = 0, previousLoopNestingLevels = [],
     postponedCalls = [], invoked = []\<rparr>"

text \<open>
  How an operation can stop the process: a failed \<open>Expects\<close>, a failed \<open>Assert\<close>,
  and \<open>back()\<close> on an empty vector, which the language leaves undefined.
\<close>

datatype error = ExpectsFailed | AssertFailed | BackOfEmptyVector

text \<open>\<^verbatim>\<open>void Sandbox::processPostponedCalls(int level)\<close>\<close>

function processPostponedCalls :: "int \<Rightarrow> 'a sandbox \<Rightarrow> 'a sandbox" where
  "processPostponedCalls level s =
     (if postponedCalls s \<noteq> [] then
        (let taken = last (postponedCalls s) in
         if fst taken \<noteq> level then s
         else processPostponedCalls level
                (s\<lparr>postponedCalls := butlast (postponedCalls s), invoked := invoked s @ [taken]\<rparr>))
      else s)"
  by pat_completeness auto
termination
  by (relation "measure (\<lambda>(level, s). length (postponedCalls s))") auto

declare processPostponedCalls.simps [simp del]

text \<open>
  \<^verbatim>\<open>void Sandbox::postponeCall(FnMut<void()> &&callable)\<close>; a null callable is
  \<open>None\<close>.
\<close>

definition postponeCall :: "'a option \<Rightarrow> 'a sandbox \<Rightarrow> error + 'a sandbox" where
  "postponeCall callable s =
     (case callable of
        None \<Rightarrow> Inl ExpectsFailed
      | Some f \<Rightarrow>
          if \<not> eventNestingLevel s \<ge> loopNestingLevel s then Inl ExpectsFailed
          else if loopNestingLevel s = eventNestingLevel s then
            (if \<not> (postponedCalls s = []
                    \<or> fst (last (postponedCalls s)) < loopNestingLevel s) then Inl AssertFailed
             else if \<not> previousLoopNestingLevels s \<noteq> [] then Inl AssertFailed
             else
               (let s1 = s\<lparr>loopNestingLevel := last (previousLoopNestingLevels s),
                              previousLoopNestingLevels := butlast (previousLoopNestingLevels s)\<rparr>
                in Inr (s1\<lparr>postponedCalls := postponedCalls s1 @ [(loopNestingLevel s1, f)]\<rparr>)))
          else Inr (s\<lparr>postponedCalls := postponedCalls s @ [(loopNestingLevel s, f)]\<rparr>))"

text \<open>\<^verbatim>\<open>void Sandbox::incrementEventNestingLevel()\<close>\<close>

definition incrementEventNestingLevel :: "'a sandbox \<Rightarrow> 'a sandbox" where
  "incrementEventNestingLevel s = s\<lparr>eventNestingLevel := eventNestingLevel s + 1\<rparr>"

text \<open>
  \<^verbatim>\<open>void Sandbox::decrementEventNestingLevel()\<close>: the pop has no guard in the source,
  so on an empty vector it is the undefined \<open>back()\<close>.
\<close>

definition decrementEventNestingLevel :: "'a sandbox \<Rightarrow> error + 'a sandbox" where
  "decrementEventNestingLevel s =
     (if eventNestingLevel s = loopNestingLevel s \<and> previousLoopNestingLevels s = []
      then Inl BackOfEmptyVector
      else
        (let s1 = (if eventNestingLevel s = loopNestingLevel s
                   then s\<lparr>loopNestingLevel := last (previousLoopNestingLevels s),
                          previousLoopNestingLevels := butlast (previousLoopNestingLevels s)\<rparr>
                   else s);
             processTillLevel = eventNestingLevel s1 - 1;
             s2 = processPostponedCalls processTillLevel s1
         in Inr (s2\<lparr>eventNestingLevel := processTillLevel\<rparr>)))"

text \<open>\<^verbatim>\<open>void Sandbox::registerEnterFromEventLoop()\<close>\<close>

definition registerEnterFromEventLoop :: "'a sandbox \<Rightarrow> 'a sandbox" where
  "registerEnterFromEventLoop s =
     (if eventNestingLevel s > loopNestingLevel s
      then s\<lparr>previousLoopNestingLevels := previousLoopNestingLevels s @ [loopNestingLevel s],
             loopNestingLevel := eventNestingLevel s\<rparr>
      else s)"

text \<open>
  A sequence of scheduler operations, run from left to right; the first failure stops
  the run, as the process stops there.
\<close>

datatype 'a operation =
    RegisterEnterFromEventLoop
  | PostponeCall "'a option"
  | IncrementEventNestingLevel
  | DecrementEventNestingLevel

fun step :: "'a operation \<Rightarrow> 'a sandbox \<Rightarrow> error + 'a sandbox" where
  "step RegisterEnterFromEventLoop s = Inr (registerEnterFromEventLoop s)"
| "step (PostponeCall callable) s = postponeCall callable s"
| "step IncrementEventNestingLevel s = Inr (incrementEventNestingLevel s)"
| "step DecrementEventNestingLevel s = decrementEventNestingLevel s"

fun run :: "'a operation list \<Rightarrow> 'a sandbox \<Rightarrow> error + 'a sandbox" where
  "run [] s = Inr s"
| "run (x # xs) s = (case step x s of Inl e \<Rightarrow> Inl e | Inr s' \<Rightarrow> run xs s')"

text \<open>
  Conditions on a sequence of operations, read off the sequence alone, with \<open>d\<close> the
  number of dispatches open before it. \<open>paired\<close>: every decrement closes an earlier
  increment. \<open>insideDispatch\<close>: moreover every \<open>postponeCall\<close> passes a callable
  and is made with a dispatch open. \<open>revisits l\<close>: some decrement brings the number of
  open dispatches down to \<open>l\<close>.
\<close>

fun paired :: "int \<Rightarrow> 'a operation list \<Rightarrow> bool" where
  "paired d [] = True"
| "paired d (IncrementEventNestingLevel # xs) = paired (d + 1) xs"
| "paired d (DecrementEventNestingLevel # xs) = (d > 0 \<and> paired (d - 1) xs)"
| "paired d (x # xs) = paired d xs"

fun insideDispatch :: "int \<Rightarrow> 'a operation list \<Rightarrow> bool" where
  "insideDispatch d [] = True"
| "insideDispatch d (IncrementEventNestingLevel # xs) = insideDispatch (d + 1) xs"
| "insideDispatch d (DecrementEventNestingLevel # xs) = (d > 0 \<and> insideDispatch (d - 1) xs)"
| "insideDispatch d (PostponeCall callable # xs) =
     (d > 0 \<and> callable \<noteq> None \<and> insideDispatch d xs)"
| "insideDispatch d (RegisterEnterFromEventLoop # xs) = insideDispatch d xs"

fun revisits :: "int \<Rightarrow> int \<Rightarrow> 'a operation list \<Rightarrow> bool" where
  "revisits l d [] = False"
| "revisits l d (IncrementEventNestingLevel # xs) = revisits l (d + 1) xs"
| "revisits l d (DecrementEventNestingLevel # xs) = (d - 1 = l \<or> revisits l (d - 1) xs)"
| "revisits l d (x # xs) = revisits l d xs"

text \<open>The callables a sequence submits, in submission order.\<close>

fun submitted :: "'a operation list \<Rightarrow> 'a list" where
  "submitted [] = []"
| "submitted (PostponeCall (Some f) # xs) = f # submitted xs"
| "submitted (x # xs) = submitted xs"

text \<open>
  The invariant of the scheduler state: the loop level never exceeds the event level;
  the previous levels with the current loop level on top increase strictly from \<open>0\<close>;
  the postponed calls are ordered by level, each level below the event level and one of
  the levels on the stack.
\<close>

definition consistent :: "'a sandbox \<Rightarrow> bool" where
  "consistent s \<longleftrightarrow>
     loopNestingLevel s \<le> eventNestingLevel s
   \<and> sorted_wrt (<) (previousLoopNestingLevels s @ [loopNestingLevel s])
   \<and> hd (previousLoopNestingLevels s @ [loopNestingLevel s]) = 0
   \<and> sorted (map fst (postponedCalls s))
   \<and> (\<forall>p \<in> set (postponedCalls s). fst p < eventNestingLevel s
          \<and> fst p \<in> set (previousLoopNestingLevels s @ [loopNestingLevel s]))"

section \<open>The single-instance protocol\<close>

text \<open>
  String literals of the source (\<open>qsl\<close> is its macro for a \<open>QString\<close> literal), and
  the same characters as bytes.
\<close>

definition qsl :: "string \<Rightarrow> qstring" where
  "qsl s = map of_char s"

definition latin1 :: "string \<Rightarrow> qbytearray" where
  "latin1 s = map of_char s"

text \<open>
  The library functions the code calls, on the arguments it calls them with.
  \<open>QString::toLatin1\<close> replaces a code unit above \<open>0xFF\<close> by \<open>'?'\<close>;
  \<open>QString::fromLatin1\<close> of a byte array reads the array up to its first zero byte
  (Qt 5 takes the length with \<open>qstrnlen\<close>) and maps each byte read to the code unit
  of the same value;
  \<open>QString::indexOf(ch, from)\<close> is the first index at or after \<open>from\<close> holding
  \<open>ch\<close>, with \<open>None\<close> for the source's \<open>-1\<close>; \<open>mid(pos, n)\<close> is the \<open>n\<close> code
  units from \<open>pos\<close>, and \<open>mid(pos)\<close> all from \<open>pos\<close>; \<open>arg\<close> of a number is its
  decimal representation.
\<close>

definition toLatin1 :: "qstring \<Rightarrow> qbytearray" where
  "toLatin1 str = map (\<lambda>c. if c > 0xFF then 0x3F else ucast c) str"

definition fromLatin1 :: "qbytearray \<Rightarrow> qstring" where
  "fromLatin1 ba = map ucast (takeWhile (\<lambda>b. b \<noteq> 0) ba)"

definition indexOf :: "'a list \<Rightarrow> 'a \<Rightarrow> nat \<Rightarrow> nat option" where
  "indexOf str ch from =
     (let n = length (takeWhile (\<lambda>c. c \<noteq> ch) (drop from str))
      in if from + n < length str then Some (from + n) else None)"

definition mid :: "'a list \<Rightarrow> nat \<Rightarrow> nat \<Rightarrow> 'a list" where
  "mid str pos n = take n (drop pos str)"

fun number :: "nat \<Rightarrow> qstring" where
  "number n = (if n < 10 then [0x30 + of_nat n]
               else number (n div 10) @ [0x30 + of_nat (n mod 10)])"

declare number.simps [simp del]

text \<open>
  \<^verbatim>\<open>void Sandbox::socketConnected()\<close> of the Secondary: the bytes written to the
  socket, from the pending paths \<open>cSendPaths()\<close> and the start URL \<open>cStartUrl()\<close>.
  \<open>0x3B\<close> is \<open>';'\<close>.
\<close>

definition socketConnected :: "qstring list \<Rightarrow> qstring \<Rightarrow> qbytearray" where
  "socketConnected lst startUrl =
     (let commands = foldl (\<lambda>commands i. commands @ (qsl ''SEND:'' @ escapeTo7bit i @ [0x3B])) [] lst;
          commands = (if startUrl \<noteq> []
                      then commands @ (qsl ''OPEN:'' @ escapeTo7bit startUrl @ [0x3B])
                      else commands @ qsl ''CMD:show;'')
      in toLatin1 commands)"

text \<open>
  The Primary. A connected client is its socket, here the bytes the next \<open>readAll()\<close>
  returns and the bytes written to it so far, and its accumulation buffer, the
  \<open>second\<close> of the pair.
\<close>

record localClient =
  socketData :: qbytearray
  socketWritten :: qbytearray
  second :: qbytearray

text \<open>
  What \<open>readClients\<close> calls outside the file: activating the main window or the
  pre-launch window, \<open>App::wnd()->sendPaths()\<close> (recorded with the pending paths it
  finds), \<open>_application->checkStartUrl()\<close>, and the \<open>LOG\<close> of an unknown command.
  The debug log lines are left out.
\<close>

datatype effect =
    ActivateMainWindow
  | ActivatePreLaunchWindow
  | MainWindowSendPaths "qstring list"
  | ApplicationCheckStartUrl
  | LogUnknownCommand qstring

text \<open>
  The branch of the command chain a frame takes, with its payload: the text after
  \<open>CMD:\<close>, the unescaped text after \<open>SEND:\<close>, the unescaped text after
  \<open>OPEN:\<close> cut to 8192 code units, or the whole frame when no tag matches. For
  \<open>SEND\<close> and \<open>OPEN\<close> the payload is recorded decoded also when the branch,
  finding paths or a start URL already pending, does not decode it.
\<close>

datatype command = Cmd qstring | Send qstring | Open qstring | Unknown qstring

text \<open>
  The state of the Primary that \<open>readClients\<close> reads and writes: the pending paths
  and start URL (\<open>cSendPaths()\<close>, \<open>cStartUrl()\<close>), whether the main window, the
  pre-launch window and the application exist, the process id, the connected clients,
  and the calls made so far.
\<close>

record primary =
  cSendPaths :: "qstring list"
  cStartUrl :: qstring
  wnd :: bool
  preLaunchWindow :: bool
  application :: bool
  applicationPid :: nat
  localClients :: "localClient list"
  effects :: "effect list"

text \<open>
  The variables of one call of \<open>readClients\<close>: its locals \<open>startUrl\<close> and
  \<open>toSend\<close>, and the calls made so far. \<open>dispatched\<close> is no variable of the
  source: it records, for each frame handled, the branch taken.
\<close>

record reading =
  startUrl :: qstring
  toSend :: "qstring list"
  called :: "effect list"
  dispatched :: "command list"

text \<open>\<^verbatim>\<open>void Sandbox::execExternal(const QString &cmd)\<close>\<close>

definition execExternal :: "primary \<Rightarrow> qstring \<Rightarrow> reading \<Rightarrow> reading" where
  "execExternal p cmd st =
     (if cmd = qsl ''show'' then
        (if wnd p then st\<lparr>called := called st @ [ActivateMainWindow]\<rparr>
         else if preLaunchWindow p then st\<lparr>called := called st @ [ActivatePreLaunchWindow]\<rparr>
         else st)
      else st)"

text \<open>The reply \<open>RES:%1;\<close> with a process id, written to the client's socket.\<close>

definition writeResponse :: "nat \<Rightarrow> localClient \<Rightarrow> localClient" where
  "writeResponse pid c =
     c\<lparr>socketWritten := socketWritten c @ toLatin1 (qsl ''RES:'' @ number pid @ qsl '';'')\<rparr>"

text \<open>
  The body of the frame loop of \<open>readClients\<close>, for the frame from \<open>from\<close> up to
  the delimiter at \<open>to\<close>, on the client \<open>c\<close> the iterator is at.
  \<open>requiresActivate\<close> is the hook \<open>StartUrlRequiresActivate\<close>. A frame that starts
  with a tag is at least as long as the tag, so the lengths passed to \<open>mid\<close> are not
  negative. The constant \<open>kEmptyPidForCommandResponse\<close> is \<open>0\<close>.
\<close>

definition processCommand ::
  "(qstring \<Rightarrow> bool) \<Rightarrow> primary \<Rightarrow> qstring \<Rightarrow> nat \<Rightarrow> nat
     \<Rightarrow> localClient \<times> reading \<Rightarrow> localClient \<times> reading" where
  "processCommand requiresActivate p cmds from to cst =
     (let c = fst cst; st = snd cst; cmd = mid cmds from (to - from) in
      if prefix (qsl ''CMD:'') cmd then
        (let payload = mid cmds (from + 4) (to - from - 4);
             st1 = execExternal p payload (st\<lparr>dispatched := dispatched st @ [Cmd payload]\<rparr>)
         in (writeResponse (applicationPid p) c, st1))
      else if prefix (qsl ''SEND:'') cmd then
        (let st1 = st\<lparr>dispatched := dispatched st
                      @ [Send (escapeFrom7bit (mid cmds (from + 5) (to - from - 5)))]\<rparr>
         in if cSendPaths p = []
            then (c, st1\<lparr>toSend := toSend st1
                      @ [escapeFrom7bit (mid cmds (from + 5) (to - from - 5))]\<rparr>)
            else (c, st1))
      else if prefix (qsl ''OPEN:'') cmd then
        (let st1 = st\<lparr>dispatched := dispatched st
                      @ [Open (take 8192 (escapeFrom7bit (mid cmds (from + 5) (to - from - 5))))]\<rparr>;
             st2 = (if cStartUrl p = []
                    then st1\<lparr>startUrl :=
                           take 8192 (escapeFrom7bit (mid cmds (from + 5) (to - from - 5)))\<rparr>
                    else st1);
             activateRequired = (if cStartUrl p = [] then requiresActivate (startUrl st2) else True);
             st3 = (if activateRequired then execExternal p (qsl ''show'') st2 else st2);
             responsePid = (if activateRequired then applicationPid p else 0)
         in (writeResponse responsePid c, st3))
      else (c, st\<lparr>called := called st @ [LogUnknownCommand cmd],
                   dispatched := dispatched st @ [Unknown cmd]\<rparr>))"

lemma indexOf_bounds:
  assumes "indexOf str ch from = Some to"
  shows "from \<le> to" and "to < length str"
  using assms by (auto simp: indexOf_def Let_def split: if_splits)

text \<open>
  The frame loop of \<open>readClients\<close> over \<open>cmds\<close>, from the index \<open>from\<close>; it
  returns the index after the last delimiter found. The loop is entered with
  \<open>from = 0\<close>, where its first search for a delimiter, \<open>cmds.indexOf(';', from)\<close>,
  gives what the expression of the later ones gives,
  \<open>(from < l) ? cmds.indexOf(';', from) : -1\<close>: on an empty \<open>cmds\<close> (a buffer that
  starts with a zero byte) both are \<open>-1\<close>.
\<close>

function readFrames ::
  "(qstring \<Rightarrow> bool) \<Rightarrow> primary \<Rightarrow> qstring \<Rightarrow> nat
     \<Rightarrow> localClient \<times> reading \<Rightarrow> (localClient \<times> reading) \<times> nat" where
  "readFrames requiresActivate p cmds from cst =
     (case (if from < length cmds then indexOf cmds 0x3B from else None) of
        None \<Rightarrow> (cst, from)
      | Some to \<Rightarrow>
          if to \<ge> from
          then readFrames requiresActivate p cmds (to + 1)
                 (processCommand requiresActivate p cmds from to cst)
          else (cst, from))"
  by pat_completeness auto
termination
  by (relation "measure (\<lambda>(requiresActivate, p, cmds, from, cst). length cmds - from)")
     (auto split: if_splits dest: indexOf_bounds)

declare readFrames.simps [simp del]

text \<open>
  One turn of the loop of \<open>readClients\<close> over the clients: append what the socket
  holds to the buffer, handle the complete frames, keep the rest.
\<close>

definition readClient ::
  "(qstring \<Rightarrow> bool) \<Rightarrow> primary \<Rightarrow> localClient \<Rightarrow> reading \<Rightarrow> localClient \<times> reading" where
  "readClient requiresActivate p c st =
     (let c1 = c\<lparr>second := second c @ socketData c, socketData := []\<rparr> in
      if second c1 \<noteq> [] then
        (let cmds = fromLatin1 (second c1);
             r = readFrames requiresActivate p cmds 0 (c1, st);
             c2 = fst (fst r); st2 = snd (fst r); from = snd r
         in if from > 0 then (c2\<lparr>second := drop from (second c2)\<rparr>, st2) else (c2, st2))
      else (c1, st))"

fun readEach ::
  "(qstring \<Rightarrow> bool) \<Rightarrow> primary \<Rightarrow> localClient list \<Rightarrow> reading
     \<Rightarrow> localClient list \<times> reading" where
  "readEach requiresActivate p [] st = ([], st)"
| "readEach requiresActivate p (c # cs) st =
     (let r = readClient requiresActivate p c st;
          rs = readEach requiresActivate p cs (snd r)
      in (fst r # fst rs, snd rs))"

text \<open>\<^verbatim>\<open>void Sandbox::readClients()\<close>\<close>

definition readClients :: "(qstring \<Rightarrow> bool) \<Rightarrow> primary \<Rightarrow> primary" where
  "readClients requiresActivate p =
     (let r = readEach requiresActivate p (localClients p)
                \<lparr>startUrl = [], toSend = [], called = effects p, dispatched = []\<rparr>;
          st = snd r;
          p1 = p\<lparr>localClients := fst r\<rparr>;
          p2 = (if toSend st \<noteq> [] then p1\<lparr>cSendPaths := cSendPaths p1 @ toSend st\<rparr> else p1);
          called1 = (if cSendPaths p2 \<noteq> [] \<and> wnd p2
                     then called st @ [MainWindowSendPaths (cSendPaths p2)] else called st);
          p3 = (if startUrl st \<noteq> [] then p2\<lparr>cStartUrl := startUrl st\<rparr> else p2);
          called2 = (if application p3 then called1 @ [ApplicationCheckStartUrl] else called1)
      in p3\<lparr>effects := called2\<rparr>)"

text \<open>
  The frame loop read on lists, used in the proofs below: the frames a text holds, each
  without its delimiter \<open>d\<close>, and the text after the last delimiter.
\<close>

lemma tl_dropWhile_shorter:
  assumes "d \<in> set xs"
  shows "length (tl (dropWhile (\<lambda>c. c \<noteq> d) xs)) < length xs"
proof -
  have "length (dropWhile (\<lambda>c. c \<noteq> d) xs) \<le> length xs" by (rule length_dropWhile_le)
  moreover have "0 < length xs" using assms by (cases xs) auto
  ultimately show ?thesis unfolding length_tl by linarith
qed

lemma takeWhile_shorter:
  assumes "d \<in> set xs"
  shows "length (takeWhile (\<lambda>c. c \<noteq> d) xs) < length xs"
  using assms by (induction xs) auto

function frames :: "'a \<Rightarrow> 'a list \<Rightarrow> 'a list list" where
  "frames d xs = (if d \<in> set xs
     then takeWhile (\<lambda>c. c \<noteq> d) xs # frames d (tl (dropWhile (\<lambda>c. c \<noteq> d) xs))
     else [])"
  by pat_completeness auto
termination
  by (relation "measure (\<lambda>(d, xs). length xs)") (simp_all only: in_measure wf_measure prod.case tl_dropWhile_shorter)

function unterminated :: "'a \<Rightarrow> 'a list \<Rightarrow> 'a list" where
  "unterminated d xs = (if d \<in> set xs
     then unterminated d (tl (dropWhile (\<lambda>c. c \<noteq> d) xs))
     else xs)"
  by pat_completeness auto
termination
  by (relation "measure (\<lambda>(d, xs). length xs)") (simp_all only: in_measure wf_measure prod.case tl_dropWhile_shorter)

declare frames.simps [simp del] unterminated.simps [simp del]

text \<open>
  The entry \<open>processCommand\<close> records for a frame, as a function of the frame.
\<close>

definition commandOf :: "qstring \<Rightarrow> command" where
  "commandOf cmd =
     (if prefix (qsl ''CMD:'') cmd then Cmd (drop 4 cmd)
      else if prefix (qsl ''SEND:'') cmd then Send (escapeFrom7bit (drop 5 cmd))
      else if prefix (qsl ''OPEN:'') cmd then Open (take 8192 (escapeFrom7bit (drop 5 cmd)))
      else Unknown cmd)"

text \<open>
  One turn on a buffer, read on lists. The frame loop runs over
  \<open>QString::fromLatin1\<close> of the buffer, that is over the bytes before its first zero
  byte: \<open>commandsIn\<close> is the commands it dispatches there, in order, and \<open>kept\<close>
  the bytes the buffer holds afterwards, those from the index after the last delimiter
  the loop found.
\<close>

definition commandsIn :: "qbytearray \<Rightarrow> command list" where
  "commandsIn data =
     map commandOf (map fromLatin1 (frames 0x3B (takeWhile (\<lambda>b. b \<noteq> 0) data)))"

definition kept :: "qbytearray \<Rightarrow> qbytearray" where
  "kept data =
     (let seen = takeWhile (\<lambda>b. b \<noteq> 0) data
      in drop (length seen - length (unterminated 0x3B seen)) data)"

text \<open>
  The payload of the last \<open>OPEN\<close> command of a list of dispatched commands, empty
  when it holds none.
\<close>

definition lastOpen :: "command list \<Rightarrow> qstring" where
  "lastOpen ds = foldl (\<lambda>url d. case d of Open u \<Rightarrow> u | _ \<Rightarrow> url) [] ds"

text \<open>
  The read events of one session. At each event \<open>readClients\<close> finds a piece of the
  stream on the socket and takes its turn on the client; the state of the Primary and
  the locals at the event are whatever they are then. The result is the client after
  the last event and the commands dispatched over all of them.
\<close>

fun readEvents ::
  "(qstring \<Rightarrow> bool) \<Rightarrow> (primary \<times> reading \<times> qbytearray) list \<Rightarrow> localClient
     \<Rightarrow> localClient \<times> command list" where
  "readEvents h [] c = (c, [])"
| "readEvents h (e # events) c =
     (let r = readClient h (fst e) (c\<lparr>socketData := snd (snd e)\<rparr>) ((fst (snd e))\<lparr>dispatched := []\<rparr>);
          rs = readEvents h events (fst r)
      in (fst rs, dispatched (snd r) @ snd rs))"

text \<open>
  A client with nothing to read whose buffer holds no complete frame.
\<close>

definition idle :: "localClient \<Rightarrow> bool" where
  "idle c \<longleftrightarrow> socketData c = [] \<and> 0x3B \<notin> set (second c)"

section \<open>Properties of the codec\<close>

lemma escapeTo7bit_loop_drop:
  "escapeTo7bit_loop str i result = result @ concat (map escapeChar (drop i str))"
proof (induction str i result rule: escapeTo7bit_loop.induct)
  case (1 str i result)
  show ?case
  proof (cases "i < length str")
    case True
    then have d: "drop i str = str ! i # drop (Suc i) str"
      by (simp add: Cons_nth_drop_Suc)
    have "escapeTo7bit_loop str i result = escapeTo7bit_loop str (i + 1) (result @ escapeChar (str ! i))"
      using True by (subst escapeTo7bit_loop.simps) (simp add: escapeChar_def Let_def)
    also have "\<dots> = (result @ escapeChar (str ! i)) @ concat (map escapeChar (drop (i + 1) str))"
    proof (cases "str ! i < 32 \<or> str ! i > 127 \<or> str ! i = 0x25")
      case esc: True
      then have e: "escapeChar (str ! i) = [0x25, toHex (drop_bit 12 (str ! i)), toHex (drop_bit 8 (str ! i)),
          toHex (drop_bit 4 (str ! i)), toHex (str ! i)]"
        unfolding escapeChar_def by (rule if_P)
      show ?thesis unfolding e using 1(1)[OF True refl esc] .
    next
      case noesc: False
      then have e: "escapeChar (str ! i) = [str ! i]"
        unfolding escapeChar_def by (rule if_not_P)
      show ?thesis unfolding e using 1(2)[OF True refl noesc] .
    qed
    finally show ?thesis using d by simp
  next
    case False
    then show ?thesis by (subst escapeTo7bit_loop.simps) simp
  qed
qed

lemma unescapeList_escape:
  assumes "4 \<le> length rest"
  shows "unescapeList (0x25 # rest) =
     (push_bit 12 (fromHex (rest ! 0)) OR push_bit 8 (fromHex (rest ! 1))
            OR push_bit 4 (fromHex (rest ! 2)) OR fromHex (rest ! 3)) # unescapeList (drop 4 rest)"
  using assms by simp

lemma unescapeList_plain:
  assumes "\<not> (ch = 0x25 \<and> 4 \<le> length rest)"
  shows "unescapeList (ch # rest) = ch # unescapeList rest"
  using assms by auto

lemma escapeFrom7bit_loop_drop:
  "escapeFrom7bit_loop str i result = result @ unescapeList (drop i str)"
proof (induction str i result rule: escapeFrom7bit_loop.induct)
  case (1 str i result)
  show ?case
  proof (cases "i < length str")
    case True
    then have d: "drop i str = str ! i # drop (Suc i) str"
      by (simp add: Cons_nth_drop_Suc)
    show ?thesis
    proof (cases "str ! i = 0x25 \<and> i + 4 < length str")
      case esc: True
      define r where "r = drop (Suc i) str"
      have len: "4 \<le> length r" using esc by (auto simp: r_def)
      have nth: "r ! 0 = str ! (i + 1)" "r ! 1 = str ! (i + 2)" "r ! 2 = str ! (i + 3)" "r ! 3 = str ! (i + 4)"
        using esc by (auto simp: r_def add.commute eval_nat_numeral)
      have dr: "drop 4 r = drop (i + 4 + 1) str" by (simp add: r_def add.commute)
      have "escapeFrom7bit_loop str i result = escapeFrom7bit_loop str (i + 4 + 1)
                (result @ [push_bit 12 (fromHex (str ! (i + 1))) OR push_bit 8 (fromHex (str ! (i + 2)))
                           OR push_bit 4 (fromHex (str ! (i + 3))) OR fromHex (str ! (i + 4))])"
        using True esc by (subst escapeFrom7bit_loop.simps) (simp add: Let_def)
      also have "\<dots> = (result @ [push_bit 12 (fromHex (str ! (i + 1))) OR push_bit 8 (fromHex (str ! (i + 2)))
                           OR push_bit 4 (fromHex (str ! (i + 3))) OR fromHex (str ! (i + 4))]) @ unescapeList (drop (i + 4 + 1) str)"
        using 1(1)[OF True refl] esc by simp
      also have "\<dots> = result @ unescapeList (0x25 # r)"
        unfolding unescapeList_escape[OF len] nth dr by simp
      finally show ?thesis using esc d by (simp add: r_def)
    next
      case noesc: False
      have "escapeFrom7bit_loop str i result = escapeFrom7bit_loop str (i + 1) (result @ [str ! i])"
        using True noesc by (subst escapeFrom7bit_loop.simps) (auto simp add: Let_def)
      also have "\<dots> = (result @ [str ! i]) @ unescapeList (drop (i + 1) str)"
        using 1(2)[OF True refl] noesc by simp
      also have "\<dots> = result @ unescapeList (str ! i # drop (Suc i) str)"
        using noesc True by (subst unescapeList_plain) auto
      finally show ?thesis using d by simp
    qed
  next
    case False
    then show ?thesis by (subst escapeFrom7bit_loop.simps) simp
  qed
qed

lemma fromHex_toHex: "fromHex (toHex v) = v AND 0x000F"
proof -
  define w where "w = v AND 0x000F"
  have "w \<le> 15" unfolding w_def by (rule word_and_le1)
  then have "unat w \<le> 15" by (simp add: word_le_nat_alt)
  then have "unat w = 0 \<or> unat w = 1 \<or> unat w = 2 \<or> unat w = 3 \<or> unat w = 4 \<or> unat w = 5
      \<or> unat w = 6 \<or> unat w = 7 \<or> unat w = 8 \<or> unat w = 9 \<or> unat w = 10 \<or> unat w = 11
      \<or> unat w = 12 \<or> unat w = 13 \<or> unat w = 14 \<or> unat w = 15" by arith
  moreover have "word_of_nat (unat w) = w" by simp
  ultimately have "w \<in> {0,1,2,3,4,5,6,7,8,9,10,11,12,13,14,15}"
    by (elim disjE) auto
  then show ?thesis
    unfolding toHex_def fromHex_def Let_def w_def[symmetric]
    by (auto simp: word_le_nat_alt)
qed

lemma low_nibble_take_bit: "(w::16 word) AND 0x000F = take_bit 4 w"
proof -
  have "(0x000F::16 word) = mask 4" by (simp add: mask_eq_exp_minus_1)
  then show ?thesis by (simp add: take_bit_eq_mask)
qed

lemma nibbles: "push_bit 12 (drop_bit 12 (u::16 word) AND 0x000F) OR push_bit 8 (drop_bit 8 u AND 0x000F)
   OR push_bit 4 (drop_bit 4 u AND 0x000F) OR (u AND 0x000F) = u"
  unfolding low_nibble_take_bit
proof (rule bit_word_eqI)
  fix n :: nat
  assume "n < LENGTH(16)"
  then have n: "n < 16" by simp
  consider "n < 4" | "4 \<le> n" "n < 8" | "8 \<le> n" "n < 12" | "12 \<le> n"
    by linarith
  then show "bit (push_bit 12 (take_bit 4 (drop_bit 12 u)) OR push_bit 8 (take_bit 4 (drop_bit 8 u))
      OR push_bit 4 (take_bit 4 (drop_bit 4 u)) OR take_bit 4 u) n = bit u n"
  proof cases
    case 1 then show ?thesis by (simp add: bit_simps)
  next
    case 2 then show ?thesis by (auto simp: bit_simps)
  next
    case 3 then show ?thesis by (auto simp: bit_simps)
  next
    case 4 then show ?thesis using n by (auto simp: bit_simps)
  qed
qed


lemma unescapeList_escapeChar:
  "unescapeList (escapeChar uch @ rest) = uch # unescapeList rest"
proof (cases "uch < 32 \<or> uch > 127 \<or> uch = 0x25")
  case True
  then have e: "escapeChar uch = [0x25, toHex (drop_bit 12 uch), toHex (drop_bit 8 uch),
      toHex (drop_bit 4 uch), toHex uch]"
    unfolding escapeChar_def by (rule if_P)
  have "unescapeList ([0x25, a, b, c, d] @ rest) =
      (push_bit 12 (fromHex a) OR push_bit 8 (fromHex b) OR push_bit 4 (fromHex c) OR fromHex d)
        # unescapeList rest" for a b c d
    by simp
  then show ?thesis
    unfolding e by (simp only: fromHex_toHex nibbles)
next
  case False
  then have e: "escapeChar uch = [uch]"
    unfolding escapeChar_def by (rule if_not_P)
  show ?thesis
    unfolding e using False by simp
qed

lemma unescapeList_concat_escapeChar:
  "unescapeList (concat (map escapeChar s)) = s"
  by (induction s) (simp_all add: unescapeList_escapeChar)

lemma escapeTo7bit_eq: "escapeTo7bit str = concat (map escapeChar str)"
  by (simp add: escapeTo7bit_def escapeTo7bit_loop_drop)

lemma escapeFrom7bit_eq: "escapeFrom7bit str = unescapeList str"
  by (simp add: escapeFrom7bit_def escapeFrom7bit_loop_drop)

text \<open>
  Claim C2. Decoding the encoding of any string of 16-bit code units gives the string
  back: \<open>_escapeFrom7bit(_escapeTo7bit(s)) == s\<close>, for the empty string, printable
  ASCII, the escape character, control characters and every code unit up to \<open>0xFFFF\<close>.
\<close>

theorem escape_roundtrip: "escapeFrom7bit (escapeTo7bit s) = s"
  by (simp add: escapeTo7bit_eq escapeFrom7bit_eq unescapeList_concat_escapeChar)

section \<open>Properties of the scheduler\<close>

lemma processPostponedCalls_eq:
  "processPostponedCalls level s =
     s\<lparr>postponedCalls := rev (dropWhile (\<lambda>p. fst p = level) (rev (postponedCalls s))),
       invoked := invoked s @ takeWhile (\<lambda>p. fst p = level) (rev (postponedCalls s))\<rparr>"
proof (induction level s rule: processPostponedCalls.induct)
  case (1 level s)
  show ?case
  proof (cases "postponedCalls s = []")
    case True
    then show ?thesis by (subst processPostponedCalls.simps) simp
  next
    case False
    then have q: "postponedCalls s = butlast (postponedCalls s) @ [last (postponedCalls s)]"
      by simp
    have r: "rev (postponedCalls s) = last (postponedCalls s) # rev (butlast (postponedCalls s))"
      by (subst q) simp
    show ?thesis
    proof (cases "fst (last (postponedCalls s)) = level")
      case True
      have "processPostponedCalls level s = processPostponedCalls level
                (s\<lparr>postponedCalls := butlast (postponedCalls s),
                   invoked := invoked s @ [last (postponedCalls s)]\<rparr>)"
        using False True by (subst processPostponedCalls.simps) (simp add: Let_def)
      also note 1[OF False refl, simplified, OF True]
      finally show ?thesis using True by (simp add: r)
    next
      case neq: False
      have "processPostponedCalls level s = s"
        using False neq by (subst processPostponedCalls.simps) (simp add: Let_def)
      then show ?thesis using neq False by (simp add: r)
    qed
  qed
qed

lemma sorted_unwind:
  assumes "sorted (map fst q)" and "\<forall>p \<in> set q. fst p \<le> level"
  shows "takeWhile (\<lambda>p. fst p = level) (rev q) = rev (filter (\<lambda>p. fst p = level) q)
       \<and> rev (dropWhile (\<lambda>p. fst p = level) (rev q)) = filter (\<lambda>p. fst p \<noteq> level) q"
  using assms
proof (induction q rule: rev_induct)
  case Nil
  then show ?case by simp
next
  case (snoc x xs)
  then have s: "sorted (map fst xs)" and le: "\<forall>p \<in> set xs. fst p \<le> fst x"
    and b: "\<forall>p \<in> set xs. fst p \<le> level" and bx: "fst x \<le> level"
    by (auto simp: sorted_append)
  show ?case
  proof (cases "fst x = level")
    case True
    then show ?thesis using snoc.IH[OF s b] by simp
  next
    case False
    then have "\<forall>p \<in> set xs. fst p \<noteq> level" using le bx by fastforce
    then have "filter (\<lambda>p. fst p = level) xs = []" "filter (\<lambda>p. fst p \<noteq> level) xs = xs"
      by (simp_all add: filter_empty_conv filter_id_conv)
    then show ?thesis using False by simp
  qed
qed

lemma below_top:
  assumes "sorted_wrt (<) (xs @ [l])" and "x \<in> set (xs @ [l])"
  shows "x \<le> (l::int)"
  using assms by (auto simp: sorted_wrt_append)

lemma stack_nonempty:
  assumes "consistent s" and "loopNestingLevel s > 0"
  shows "previousLoopNestingLevels s \<noteq> []"
  using assms by (auto simp: consistent_def)

lemma stack_pop:
  assumes "sorted_wrt (<) (xs @ [l::int])" and "xs \<noteq> []"
  shows "sorted_wrt (<) (butlast xs @ [last xs])" and "last xs < l"
    and "hd (butlast xs @ [last xs]) = hd (xs @ [l])"
    and "set (butlast xs @ [last xs]) = set xs"
  using assms by (auto simp: sorted_wrt_append)


lemma pop_consistent:
  assumes c: "consistent s" and eq: "loopNestingLevel s = eventNestingLevel s"
    and pos: "eventNestingLevel s > 0"
  shows "previousLoopNestingLevels s \<noteq> []"
    and "consistent (s\<lparr>loopNestingLevel := last (previousLoopNestingLevels s),
           previousLoopNestingLevels := butlast (previousLoopNestingLevels s)\<rparr>)"
    and "last (previousLoopNestingLevels s) < eventNestingLevel s"
proof -
  show ne: "previousLoopNestingLevels s \<noteq> []"
    using c eq pos by (auto simp: consistent_def)
  have st: "sorted_wrt (<) (previousLoopNestingLevels s @ [loopNestingLevel s])"
    using c by (simp add: consistent_def)
  note pop = stack_pop[OF st ne]
  show lt: "last (previousLoopNestingLevels s) < eventNestingLevel s"
    using pop(2) eq by simp
  have mem: "fst p \<in> set (previousLoopNestingLevels s)" if "p \<in> set (postponedCalls s)" for p
  proof -
    have "fst p < loopNestingLevel s" "fst p \<in> set (previousLoopNestingLevels s @ [loopNestingLevel s])"
      using c that eq by (auto simp: consistent_def)
    then show ?thesis by auto
  qed
  show "consistent (s\<lparr>loopNestingLevel := last (previousLoopNestingLevels s),
           previousLoopNestingLevels := butlast (previousLoopNestingLevels s)\<rparr>)"
    unfolding consistent_def
  proof (intro conjI ballI)
    fix p assume p: "p \<in> set (postponedCalls (s\<lparr>loopNestingLevel := last (previousLoopNestingLevels s),
           previousLoopNestingLevels := butlast (previousLoopNestingLevels s)\<rparr>))"
    then have p': "p \<in> set (postponedCalls s)" by simp
    show "fst p < eventNestingLevel (s\<lparr>loopNestingLevel := last (previousLoopNestingLevels s),
           previousLoopNestingLevels := butlast (previousLoopNestingLevels s)\<rparr>)"
      using c p' by (simp add: consistent_def)
    show "fst p \<in> set (previousLoopNestingLevels (s\<lparr>loopNestingLevel := last (previousLoopNestingLevels s),
           previousLoopNestingLevels := butlast (previousLoopNestingLevels s)\<rparr>) @
        [loopNestingLevel (s\<lparr>loopNestingLevel := last (previousLoopNestingLevels s),
           previousLoopNestingLevels := butlast (previousLoopNestingLevels s)\<rparr>)])"
      using mem[OF p'] pop(4) by simp
  qed (use c lt pop ne in \<open>simp_all add: consistent_def\<close>)
qed

lemma queue_below_loop:
  assumes "consistent s" and "p \<in> set (postponedCalls s)"
  shows "fst p \<le> loopNestingLevel s" and "fst p < eventNestingLevel s" and "0 \<le> fst p"
proof -
  have st: "sorted_wrt (<) (previousLoopNestingLevels s @ [loopNestingLevel s])"
    and m: "fst p \<in> set (previousLoopNestingLevels s @ [loopNestingLevel s])"
    and h: "hd (previousLoopNestingLevels s @ [loopNestingLevel s]) = 0"
    using assms by (auto simp: consistent_def)
  show "fst p \<le> loopNestingLevel s" by (rule below_top[OF st m])
  show "fst p < eventNestingLevel s" using assms by (auto simp: consistent_def)
  show "0 \<le> fst p"
  proof (cases "previousLoopNestingLevels s")
    case Nil
    then show ?thesis using m h by simp
  next
    case (Cons a as)
    then have "a = 0" using h by simp
    moreover have "\<forall>x \<in> set (as @ [loopNestingLevel s]). a < x"
      using st Cons by simp
    ultimately show ?thesis using m Cons by auto
  qed
qed

lemma unwind_consistent:
  assumes c: "consistent s" and lt: "loopNestingLevel s < eventNestingLevel s"
  shows "consistent ((processPostponedCalls (eventNestingLevel s - 1) s)\<lparr>eventNestingLevel := eventNestingLevel s - 1\<rparr>)"
    and "postponedCalls (processPostponedCalls (eventNestingLevel s - 1) s)
          = filter (\<lambda>p. fst p \<noteq> eventNestingLevel s - 1) (postponedCalls s)"
    and "invoked (processPostponedCalls (eventNestingLevel s - 1) s)
          = invoked s @ rev (filter (\<lambda>p. fst p = eventNestingLevel s - 1) (postponedCalls s))"
proof -
  let ?T = "eventNestingLevel s - 1"
  have so: "sorted (map fst (postponedCalls s))" using c by (simp add: consistent_def)
  have le: "\<forall>p \<in> set (postponedCalls s). fst p \<le> ?T"
    using queue_below_loop(2)[OF c] by fastforce
  note u = sorted_unwind[OF so le]
  show q: "postponedCalls (processPostponedCalls ?T s) = filter (\<lambda>p. fst p \<noteq> ?T) (postponedCalls s)"
    by (subst processPostponedCalls_eq) (simp add: u)
  show "invoked (processPostponedCalls ?T s) = invoked s @ rev (filter (\<lambda>p. fst p = ?T) (postponedCalls s))"
    by (subst processPostponedCalls_eq) (simp add: u)
  have rest: "loopNestingLevel (processPostponedCalls ?T s) = loopNestingLevel s"
      "previousLoopNestingLevels (processPostponedCalls ?T s) = previousLoopNestingLevels s"
    by (subst processPostponedCalls_eq, simp)+
  show "consistent ((processPostponedCalls ?T s)\<lparr>eventNestingLevel := ?T\<rparr>)"
    unfolding consistent_def using c lt le
    by (auto simp: q rest consistent_def sorted_filter order_less_le)
qed

lemma decrement_consistent:
  assumes c: "consistent s" and pos: "eventNestingLevel s > 0"
  shows "\<exists>s'. decrementEventNestingLevel s = Inr s' \<and> consistent s'
     \<and> eventNestingLevel s' = eventNestingLevel s - 1
     \<and> postponedCalls s' = filter (\<lambda>p. fst p \<noteq> eventNestingLevel s - 1) (postponedCalls s)
     \<and> invoked s' = invoked s @ rev (filter (\<lambda>p. fst p = eventNestingLevel s - 1) (postponedCalls s))"
proof (cases "eventNestingLevel s = loopNestingLevel s")
  case True
  let ?s1 = "s\<lparr>loopNestingLevel := last (previousLoopNestingLevels s),
           previousLoopNestingLevels := butlast (previousLoopNestingLevels s)\<rparr>"
  note p = pop_consistent[OF c True[symmetric] pos]
  have lt: "loopNestingLevel ?s1 < eventNestingLevel ?s1" using p(3) by simp
  note u = unwind_consistent[OF p(2) lt]
  have "decrementEventNestingLevel s
      = Inr ((processPostponedCalls (eventNestingLevel ?s1 - 1) ?s1)\<lparr>eventNestingLevel := eventNestingLevel ?s1 - 1\<rparr>)"
    using True p(1) by (simp add: decrementEventNestingLevel_def Let_def)
  then show ?thesis using u by simp
next
  case False
  then have lt: "loopNestingLevel s < eventNestingLevel s"
    using c by (simp add: consistent_def)
  note u = unwind_consistent[OF c lt]
  have "decrementEventNestingLevel s
      = Inr ((processPostponedCalls (eventNestingLevel s - 1) s)\<lparr>eventNestingLevel := eventNestingLevel s - 1\<rparr>)"
    using False by (simp add: decrementEventNestingLevel_def Let_def)
  then show ?thesis using u by simp
qed

lemma push_consistent:
  assumes c: "consistent s" and lt: "loopNestingLevel s < eventNestingLevel s"
  shows "consistent (s\<lparr>postponedCalls := postponedCalls s @ [(loopNestingLevel s, f)]\<rparr>)"
  using c lt queue_below_loop(1)[OF c]
  by (auto simp: consistent_def sorted_append)

lemma postponeCall_consistent:
  assumes c: "consistent s" and pos: "eventNestingLevel s > 0"
  shows "\<exists>s'. postponeCall (Some f) s = Inr s' \<and> consistent s'
     \<and> eventNestingLevel s' = eventNestingLevel s
     \<and> postponedCalls s' = postponedCalls s @ [(loopNestingLevel s', f)]
     \<and> invoked s' = invoked s"
proof (cases "loopNestingLevel s = eventNestingLevel s")
  case True
  let ?s1 = "s\<lparr>loopNestingLevel := last (previousLoopNestingLevels s),
           previousLoopNestingLevels := butlast (previousLoopNestingLevels s)\<rparr>"
  note p = pop_consistent[OF c True pos]
  have lt: "loopNestingLevel ?s1 < eventNestingLevel ?s1" using p(3) by simp
  have a: "postponedCalls s = [] \<or> fst (last (postponedCalls s)) < loopNestingLevel s"
  proof (cases "postponedCalls s = []")
    case False
    then have "last (postponedCalls s) \<in> set (postponedCalls s)" by simp
    then show ?thesis using queue_below_loop(2)[OF c] True by simp
  qed simp
  have "postponeCall (Some f) s = Inr (?s1\<lparr>postponedCalls := postponedCalls ?s1 @ [(loopNestingLevel ?s1, f)]\<rparr>)"
    using True a p(1) by (simp add: postponeCall_def Let_def)
  then show ?thesis using push_consistent[OF p(2) lt, of f] by simp
next
  case False
  then have lt: "loopNestingLevel s < eventNestingLevel s"
    using c by (simp add: consistent_def)
  have "postponeCall (Some f) s = Inr (s\<lparr>postponedCalls := postponedCalls s @ [(loopNestingLevel s, f)]\<rparr>)"
    using False lt by (simp add: postponeCall_def)
  then show ?thesis using push_consistent[OF c lt, of f] by simp
qed

lemma registerEnterFromEventLoop_consistent:
  assumes c: "consistent s"
  shows "consistent (registerEnterFromEventLoop s)"
  using c queue_below_loop(2)[OF c]
  by (auto simp: registerEnterFromEventLoop_def consistent_def sorted_wrt_append hd_append)

lemma incrementEventNestingLevel_consistent:
  assumes c: "consistent s"
  shows "consistent (incrementEventNestingLevel s)"
  using c by (fastforce simp: incrementEventNestingLevel_def consistent_def)

lemma initial_consistent: "consistent initial"
  by (simp add: initial_def consistent_def)

lemma run_append:
  "run (xs @ ys) s = (case run xs s of Inl e \<Rightarrow> Inl e | Inr s' \<Rightarrow> run ys s')"
  by (induction xs arbitrary: s) (auto split: sum.splits)

lemma loop_nonneg:
  assumes "consistent s"
  shows "0 \<le> loopNestingLevel s"
proof (cases "previousLoopNestingLevels s")
  case Nil
  then show ?thesis using assms by (simp add: consistent_def)
next
  case (Cons a as)
  then show ?thesis using assms by (auto simp: consistent_def)
qed

lemma postponeCall_Inr:
  assumes c: "consistent s" and r: "postponeCall callable s = Inr s'"
  shows "\<exists>f. callable = Some f" and "eventNestingLevel s > 0"
proof -
  show "\<exists>f. callable = Some f"
    using r by (cases callable) (simp_all add: postponeCall_def)
  show "eventNestingLevel s > 0"
  proof (cases "loopNestingLevel s = eventNestingLevel s")
    case True
    then have "previousLoopNestingLevels s \<noteq> []"
      using r by (cases callable) (auto simp: postponeCall_def split: if_splits)
    then have "0 < loopNestingLevel s"
      using c by (cases "previousLoopNestingLevels s") (auto simp: consistent_def)
    then show ?thesis using True by simp
  next
    case False
    then show ?thesis using c loop_nonneg[OF c] by (simp add: consistent_def)
  qed
qed

lemma postponeCall_not_back: "postponeCall callable s \<noteq> Inl BackOfEmptyVector"
  by (cases callable) (simp_all add: postponeCall_def Let_def)

lemma step_paired:
  assumes c: "consistent s" and d: "x = DecrementEventNestingLevel \<longrightarrow> eventNestingLevel s > 0"
  shows "step x s \<noteq> Inl BackOfEmptyVector"
    and "step x s = Inr s' \<Longrightarrow> consistent s'"
    and "step x s = Inr s' \<Longrightarrow> eventNestingLevel s' = eventNestingLevel s +
          (case x of IncrementEventNestingLevel \<Rightarrow> 1 | DecrementEventNestingLevel \<Rightarrow> - 1 | _ \<Rightarrow> 0)"
proof -
  show "step x s \<noteq> Inl BackOfEmptyVector"
  proof (cases x)
    case DecrementEventNestingLevel
    then show ?thesis using decrement_consistent[OF c] d by auto
  qed (simp_all add: postponeCall_not_back)
  show "consistent s'" if r: "step x s = Inr s'"
  proof (cases x)
    case RegisterEnterFromEventLoop
    then show ?thesis using r registerEnterFromEventLoop_consistent[OF c] by auto
  next
    case (PostponeCall callable)
    then have p: "postponeCall callable s = Inr s'" using r by simp
    from postponeCall_Inr[OF c p] obtain f where "callable = Some f" "eventNestingLevel s > 0" by auto
    then show ?thesis using postponeCall_consistent[OF c, of f] p by auto
  next
    case IncrementEventNestingLevel
    then show ?thesis using r incrementEventNestingLevel_consistent[OF c] by auto
  next
    case DecrementEventNestingLevel
    then show ?thesis using r decrement_consistent[OF c] d by auto
  qed
  show "eventNestingLevel s' = eventNestingLevel s +
          (case x of IncrementEventNestingLevel \<Rightarrow> 1 | DecrementEventNestingLevel \<Rightarrow> - 1 | _ \<Rightarrow> 0)"
    if r: "step x s = Inr s'"
  proof (cases x)
    case RegisterEnterFromEventLoop
    then show ?thesis using r by (auto simp: registerEnterFromEventLoop_def)
  next
    case (PostponeCall callable)
    then have p: "postponeCall callable s = Inr s'" using r by simp
    from postponeCall_Inr[OF c p] obtain f where "callable = Some f" "eventNestingLevel s > 0" by auto
    then show ?thesis using postponeCall_consistent[OF c, of f] p PostponeCall by auto
  next
    case IncrementEventNestingLevel
    then show ?thesis using r by (auto simp: incrementEventNestingLevel_def)
  next
    case DecrementEventNestingLevel
    then show ?thesis using r decrement_consistent[OF c] d by auto
  qed
qed

lemma run_paired:
  assumes "consistent s" and "paired (eventNestingLevel s) ops"
  shows "run ops s \<noteq> Inl BackOfEmptyVector \<and> (\<forall>s'. run ops s = Inr s' \<longrightarrow> consistent s')"
  using assms
proof (induction ops arbitrary: s)
  case Nil
  then show ?case by simp
next
  case (Cons x xs)
  have d: "x = DecrementEventNestingLevel \<longrightarrow> eventNestingLevel s > 0"
    using Cons.prems(2) by auto
  note st = step_paired[OF Cons.prems(1) d]
  show ?case
  proof (cases "step x s")
    case (Inl e)
    then show ?thesis using st(1) by auto
  next
    case (Inr s1)
    have "paired (eventNestingLevel s1) xs"
      using Cons.prems(2) st(3)[OF Inr] by (cases x) auto
    from Cons.IH[OF st(2)[OF Inr] this] show ?thesis using Inr by simp
  qed
qed

text \<open>
  Claim C10. Along every sequence of scheduler operations from the initial state in which
  each decrement closes an earlier increment, \<open>back()\<close> is never taken of an empty
  stack of previous loop nesting levels (in \<open>decrementEventNestingLevel\<close> the stack
  is non-empty whenever the two levels are equal; in \<open>postponeCall\<close> the pop comes
  after the assertion that the stack is non-empty), and in every state reached each
  level on the stack is strictly below the current loop nesting level. The precondition
  of \<open>postponeCall\<close> on the two levels need not be assumed: it holds in every state
  reached.
\<close>

theorem previous_levels_stack_safe:
  assumes "paired 0 ops"
  shows "run ops initial \<noteq> Inl BackOfEmptyVector
       \<and> (\<forall>s. run ops initial = Inr s \<longrightarrow>
            (\<forall>l \<in> set (previousLoopNestingLevels s). l < loopNestingLevel s))"
proof -
  have "paired (eventNestingLevel (initial :: 'a sandbox)) ops"
    using assms by (simp add: initial_def)
  from run_paired[OF initial_consistent this]
  show ?thesis by (auto simp: consistent_def sorted_wrt_append)
qed

theorem previous_levels_stack_safe_witness:
  "paired 0 [IncrementEventNestingLevel, RegisterEnterFromEventLoop, IncrementEventNestingLevel,
      RegisterEnterFromEventLoop, PostponeCall (Some (7::nat)), DecrementEventNestingLevel]
   \<and> run [IncrementEventNestingLevel, RegisterEnterFromEventLoop, IncrementEventNestingLevel,
      RegisterEnterFromEventLoop, PostponeCall (Some (7::nat)), DecrementEventNestingLevel] initial
      \<noteq> Inl BackOfEmptyVector"
  using previous_levels_stack_safe[of "[IncrementEventNestingLevel, RegisterEnterFromEventLoop, IncrementEventNestingLevel,
      RegisterEnterFromEventLoop, PostponeCall (Some (7::nat)), DecrementEventNestingLevel]"]
  by simp

lemma decrement_Inr:
  assumes c: "consistent s" and r: "decrementEventNestingLevel s = Inr s'"
  shows "eventNestingLevel s > 0"
proof (rule ccontr)
  assume "\<not> eventNestingLevel s > 0"
  then have e: "eventNestingLevel s = loopNestingLevel s" "loopNestingLevel s = 0"
    using c loop_nonneg[OF c] by (auto simp: consistent_def)
  have "previousLoopNestingLevels s = []"
    using c e by (cases "previousLoopNestingLevels s") (auto simp: consistent_def)
  then show False using r e by (simp add: decrementEventNestingLevel_def)
qed

lemma step_effect:
  assumes c: "consistent s" and r: "step x s = Inr s'"
  shows "consistent s'"
    and "x = RegisterEnterFromEventLoop \<Longrightarrow>
           eventNestingLevel s' = eventNestingLevel s \<and> postponedCalls s' = postponedCalls s
           \<and> invoked s' = invoked s"
    and "x = IncrementEventNestingLevel \<Longrightarrow>
           eventNestingLevel s' = eventNestingLevel s + 1 \<and> postponedCalls s' = postponedCalls s
           \<and> invoked s' = invoked s"
    and "x = PostponeCall callable \<Longrightarrow>
           (\<exists>f. callable = Some f \<and> postponedCalls s' = postponedCalls s @ [(loopNestingLevel s', f)])
           \<and> eventNestingLevel s > 0 \<and> eventNestingLevel s' = eventNestingLevel s
           \<and> invoked s' = invoked s"
    and "x = DecrementEventNestingLevel \<Longrightarrow>
           eventNestingLevel s > 0 \<and> eventNestingLevel s' = eventNestingLevel s - 1
           \<and> postponedCalls s' = filter (\<lambda>p. fst p \<noteq> eventNestingLevel s - 1) (postponedCalls s)
           \<and> invoked s' = invoked s @ rev (filter (\<lambda>p. fst p = eventNestingLevel s - 1) (postponedCalls s))"
proof -
  show "x = RegisterEnterFromEventLoop \<Longrightarrow>
           eventNestingLevel s' = eventNestingLevel s \<and> postponedCalls s' = postponedCalls s
           \<and> invoked s' = invoked s"
    using r by (auto simp: registerEnterFromEventLoop_def)
  show "x = IncrementEventNestingLevel \<Longrightarrow>
           eventNestingLevel s' = eventNestingLevel s + 1 \<and> postponedCalls s' = postponedCalls s
           \<and> invoked s' = invoked s"
    using r by (auto simp: incrementEventNestingLevel_def)
  show "x = PostponeCall callable \<Longrightarrow>
           (\<exists>f. callable = Some f \<and> postponedCalls s' = postponedCalls s @ [(loopNestingLevel s', f)])
           \<and> eventNestingLevel s > 0 \<and> eventNestingLevel s' = eventNestingLevel s
           \<and> invoked s' = invoked s"
  proof -
    assume x: "x = PostponeCall callable"
    then have p: "postponeCall callable s = Inr s'" using r by simp
    from postponeCall_Inr[OF c p] obtain f where f: "callable = Some f" and pos: "eventNestingLevel s > 0"
      by auto
    show ?thesis using postponeCall_consistent[OF c pos, of f] p f pos by auto
  qed
  show "x = DecrementEventNestingLevel \<Longrightarrow>
           eventNestingLevel s > 0 \<and> eventNestingLevel s' = eventNestingLevel s - 1
           \<and> postponedCalls s' = filter (\<lambda>p. fst p \<noteq> eventNestingLevel s - 1) (postponedCalls s)
           \<and> invoked s' = invoked s @ rev (filter (\<lambda>p. fst p = eventNestingLevel s - 1) (postponedCalls s))"
  proof -
    assume x: "x = DecrementEventNestingLevel"
    then have d: "decrementEventNestingLevel s = Inr s'" using r by simp
    note pos = decrement_Inr[OF c d]
    show ?thesis using decrement_consistent[OF c pos] d pos by auto
  qed
  have "x = DecrementEventNestingLevel \<longrightarrow> eventNestingLevel s > 0"
    using r decrement_Inr[OF c] by auto
  from step_paired(2)[OF c this r] show "consistent s'" .
qed

lemma run_consistent:
  assumes "consistent s" and "run ops s = Inr s'"
  shows "consistent s'"
  using assms
proof (induction ops arbitrary: s)
  case (Cons x xs)
  then obtain s1 where s1: "step x s = Inr s1" "run xs s1 = Inr s'"
    by (auto split: sum.splits)
  from Cons.IH[OF step_effect(1)[OF Cons.prems(1) s1(1)] s1(2)] show ?case .
qed simp

lemma run_insideDispatch:
  assumes "consistent s" and "insideDispatch (eventNestingLevel s) ops"
  shows "\<exists>s'. run ops s = Inr s'"
  using assms
proof (induction ops arbitrary: s)
  case (Cons x xs)
  show ?case
  proof (cases x)
    case RegisterEnterFromEventLoop
    then have st: "step x s = Inr (registerEnterFromEventLoop s)" by simp
    have "insideDispatch (eventNestingLevel (registerEnterFromEventLoop s)) xs"
      using Cons.prems(2) RegisterEnterFromEventLoop step_effect(2)[OF Cons.prems(1) st] by simp
    from Cons.IH[OF step_effect(1)[OF Cons.prems(1) st] this] show ?thesis using st by simp
  next
    case (PostponeCall callable)
    then obtain f where f: "callable = Some f" and pos: "eventNestingLevel s > 0"
      using Cons.prems(2) by auto
    from postponeCall_consistent[OF Cons.prems(1) pos, of f] obtain s1
      where s1: "postponeCall (Some f) s = Inr s1" "consistent s1" "eventNestingLevel s1 = eventNestingLevel s"
      by auto
    have "insideDispatch (eventNestingLevel s1) xs"
      using Cons.prems(2) PostponeCall s1(3) by simp
    from Cons.IH[OF s1(2) this] show ?thesis using s1(1) PostponeCall f by simp
  next
    case IncrementEventNestingLevel
    then have st: "step x s = Inr (incrementEventNestingLevel s)" by simp
    have "insideDispatch (eventNestingLevel (incrementEventNestingLevel s)) xs"
      using Cons.prems(2) IncrementEventNestingLevel step_effect(3)[OF Cons.prems(1) st] by simp
    from Cons.IH[OF step_effect(1)[OF Cons.prems(1) st] this] show ?thesis using st by simp
  next
    case DecrementEventNestingLevel
    then have pos: "eventNestingLevel s > 0" using Cons.prems(2) by simp
    from decrement_consistent[OF Cons.prems(1) pos] obtain s1
      where s1: "decrementEventNestingLevel s = Inr s1" "consistent s1"
        "eventNestingLevel s1 = eventNestingLevel s - 1"
      by auto
    have "insideDispatch (eventNestingLevel s1) xs"
      using Cons.prems(2) DecrementEventNestingLevel s1(3) by simp
    from Cons.IH[OF s1(2) this] show ?thesis using s1(1) DecrementEventNestingLevel by simp
  qed
qed simp

lemma never_revisited:
  assumes "consistent s" and "PostponeCall None \<notin> set ops"
    and "\<not> revisits l (eventNestingLevel s) ops" and "0 \<le> l" and "l < eventNestingLevel s"
  shows "\<exists>s' new. run ops s = Inr s' \<and> l < eventNestingLevel s'
       \<and> (\<forall>p \<in> set (postponedCalls s). fst p = l \<longrightarrow> p \<in> set (postponedCalls s'))
       \<and> invoked s' = invoked s @ new \<and> l \<notin> fst ` set new"
  using assms
proof (induction ops arbitrary: s)
  case Nil
  then show ?case by simp
next
  case (Cons x xs)
  have ex: "\<exists>s1. step x s = Inr s1"
  proof (cases x)
    case (PostponeCall callable)
    then obtain f where "callable = Some f" using Cons.prems(2) by (cases callable) auto
    moreover have "eventNestingLevel s > 0" using Cons.prems(4,5) by simp
    ultimately show ?thesis
      using postponeCall_consistent[OF Cons.prems(1), of f] PostponeCall by auto
  next
    case DecrementEventNestingLevel
    have "eventNestingLevel s > 0" using Cons.prems(4,5) by simp
    then show ?thesis
      using decrement_consistent[OF Cons.prems(1)] DecrementEventNestingLevel by auto
  qed simp_all
  then obtain s1 where s1: "step x s = Inr s1" ..
  note eff = step_effect[OF Cons.prems(1) s1]
  have step_keeps: "\<forall>p \<in> set (postponedCalls s). fst p = l \<longrightarrow> p \<in> set (postponedCalls s1)"
    and step_new: "\<exists>new1. invoked s1 = invoked s @ new1 \<and> l \<notin> fst ` set new1"
    and step_depth: "l < eventNestingLevel s1"
    and step_rev: "\<not> revisits l (eventNestingLevel s1) xs"
  proof -
    show "\<forall>p \<in> set (postponedCalls s). fst p = l \<longrightarrow> p \<in> set (postponedCalls s1)"
      using eff(2-) Cons.prems(3) by (cases x) auto
    show "\<exists>new1. invoked s1 = invoked s @ new1 \<and> l \<notin> fst ` set new1"
      using eff(2-) Cons.prems(3) by (cases x) auto
    show "l < eventNestingLevel s1"
      using eff(2-) Cons.prems(3,5) by (cases x) auto
    show "\<not> revisits l (eventNestingLevel s1) xs"
      using eff(2-) Cons.prems(3) by (cases x) auto
  qed
  have "PostponeCall None \<notin> set xs" using Cons.prems(2) by simp
  from Cons.IH[OF eff(1) this step_rev Cons.prems(4) step_depth]
  obtain s' new where s': "run xs s1 = Inr s'" "l < eventNestingLevel s'"
    "\<forall>p \<in> set (postponedCalls s1). fst p = l \<longrightarrow> p \<in> set (postponedCalls s')"
    "invoked s' = invoked s1 @ new" "l \<notin> fst ` set new"
    by blast
  from step_new obtain new1 where new1: "invoked s1 = invoked s @ new1" "l \<notin> fst ` set new1"
    by blast
  have "run (x # xs) s = Inr s'" using s1 s'(1) by simp
  moreover have "invoked s' = invoked s @ (new1 @ new)" using s'(4) new1(1) by simp
  moreover have "l \<notin> fst ` set (new1 @ new)" using s'(5) new1(2) by auto
  ultimately show ?case using s'(2,3) step_keeps by blast
qed

text \<open>
  Claim C8. A postponed call recorded at level \<open>l\<close> in a state reached from the
  initial one stays queued and is not invoked along any continuation in which no
  decrement brings the event nesting level down to \<open>l\<close>, and no operation of the
  continuation fails: the continuation runs to a state in which the entry is still in
  the queue, and nothing invoked meanwhile was recorded at level \<open>l\<close>. Each
  \<open>postponeCall\<close> of the continuation is given a callable.
\<close>

theorem orphan_call_never_runs:
  assumes "run pre initial = Inr s1" and "(l, f) \<in> set (postponedCalls s1)"
    and "\<not> revisits l (eventNestingLevel s1) post" and "PostponeCall None \<notin> set post"
  shows "\<exists>s2 new. run post s1 = Inr s2 \<and> (l, f) \<in> set (postponedCalls s2)
       \<and> invoked s2 = invoked s1 @ new \<and> l \<notin> fst ` set new"
proof -
  have c: "consistent s1" using run_consistent[OF initial_consistent assms(1)] .
  have "0 \<le> l" "l < eventNestingLevel s1"
    using queue_below_loop(2,3)[OF c assms(2)] by simp_all
  from never_revisited[OF c assms(4,3) this] assms(2) show ?thesis by fastforce
qed


theorem orphan_call_never_runs_witness:
  "run [IncrementEventNestingLevel, PostponeCall (Some (1::nat))] initial
     = Inr \<lparr>eventNestingLevel = 1, loopNestingLevel = 0, previousLoopNestingLevels = [],
            postponedCalls = [(0, 1)], invoked = []\<rparr>
   \<and> \<not> revisits 0 1 [IncrementEventNestingLevel, RegisterEnterFromEventLoop,
         IncrementEventNestingLevel, PostponeCall (Some (2::nat)), DecrementEventNestingLevel,
         DecrementEventNestingLevel]
   \<and> (\<exists>s2 new. run [IncrementEventNestingLevel, RegisterEnterFromEventLoop,
         IncrementEventNestingLevel, PostponeCall (Some 2), DecrementEventNestingLevel,
         DecrementEventNestingLevel]
         \<lparr>eventNestingLevel = 1, loopNestingLevel = 0, previousLoopNestingLevels = [],
            postponedCalls = [(0, 1::nat)], invoked = []\<rparr> = Inr s2
       \<and> (0, 1) \<in> set (postponedCalls s2) \<and> invoked s2 = [] @ new \<and> 0 \<notin> fst ` set new)"
proof -
  let ?s1 = "\<lparr>eventNestingLevel = 1, loopNestingLevel = 0, previousLoopNestingLevels = [],
            postponedCalls = [(0, 1::nat)], invoked = []\<rparr>"
  let ?post = "[IncrementEventNestingLevel, RegisterEnterFromEventLoop,
         IncrementEventNestingLevel, PostponeCall (Some (2::nat)), DecrementEventNestingLevel,
         DecrementEventNestingLevel]"
  have h1: "run [IncrementEventNestingLevel, PostponeCall (Some (1::nat))] initial = Inr ?s1"
    by (simp add: initial_def incrementEventNestingLevel_def postponeCall_def)
  have h2: "(0, 1) \<in> set (postponedCalls ?s1)" by simp
  have h3: "\<not> revisits 0 (eventNestingLevel ?s1) ?post" by simp
  have h4: "PostponeCall None \<notin> set ?post" by simp
  from orphan_call_never_runs[OF h1 h2 h3 h4] h1 h3 show ?thesis by simp
qed


lemma run_append_Inr:
  "run (xs @ ys) s = Inr s' \<longleftrightarrow> (\<exists>s1. run xs s = Inr s1 \<and> run ys s1 = Inr s')"
  by (simp add: run_append split: sum.splits)

lemma run_single: "run [x] s = Inr s' \<longleftrightarrow> step x s = Inr s'"
  by (cases "step x s") auto

lemma submitted_append: "submitted (xs @ ys) = submitted xs @ submitted ys"
  by (induction xs rule: submitted.induct) simp_all

lemma insideDispatch_append:
  "insideDispatch d (xs @ ys) \<Longrightarrow> insideDispatch d xs"
  by (induction d xs rule: insideDispatch.induct) simp_all

lemma insideDispatch_no_null:
  "insideDispatch d xs \<Longrightarrow> PostponeCall None \<notin> set xs"
  by (induction d xs rule: insideDispatch.induct) auto

lemma mset_partition_map:
  "mset (map g (filter P q)) + mset (map g (filter (\<lambda>p. \<not> P p) q)) = mset (map g q)"
  by (induction q) simp_all

lemma run_mset:
  assumes "consistent s" and "run ops s = Inr s'"
  shows "mset (map snd (invoked s')) + mset (map snd (postponedCalls s'))
       = mset (map snd (invoked s)) + mset (map snd (postponedCalls s)) + mset (submitted ops)"
  using assms
proof (induction ops arbitrary: s)
  case Nil
  then show ?case by simp
next
  case (Cons x xs)
  then obtain s1 where s1: "step x s = Inr s1" "run xs s1 = Inr s'"
    by (auto split: sum.splits)
  note eff = step_effect[OF Cons.prems(1) s1(1)]
  note ih = Cons.IH[OF eff(1) s1(2)]
  show ?case
  proof (cases x)
    case RegisterEnterFromEventLoop
    then show ?thesis using ih eff(2) by simp
  next
    case (PostponeCall callable)
    from eff(4)[OF this] obtain f where "callable = Some f"
      "postponedCalls s1 = postponedCalls s @ [(loopNestingLevel s1, f)]" "invoked s1 = invoked s"
      by auto
    then show ?thesis using ih PostponeCall by simp
  next
    case IncrementEventNestingLevel
    then show ?thesis using ih eff(3) by simp
  next
    case DecrementEventNestingLevel
    from eff(5)[OF this] have
      q: "postponedCalls s1 = filter (\<lambda>p. \<not> fst p = eventNestingLevel s - 1) (postponedCalls s)"
      and i: "invoked s1 = invoked s @ rev (filter (\<lambda>p. fst p = eventNestingLevel s - 1) (postponedCalls s))"
      by simp_all
    have "mset (map snd (invoked s1)) + mset (map snd (postponedCalls s1))
        = mset (map snd (invoked s)) + (mset (map snd (filter (\<lambda>p. fst p = eventNestingLevel s - 1) (postponedCalls s)))
            + mset (map snd (filter (\<lambda>p. \<not> fst p = eventNestingLevel s - 1) (postponedCalls s))))"
      unfolding q i by (simp add: rev_map[symmetric])
    also have "\<dots> = mset (map snd (invoked s)) + mset (map snd (postponedCalls s))"
      by (simp only: mset_partition_map)
    finally show ?thesis using ih DecrementEventNestingLevel by simp
  qed
qed

lemma run_subseq:
  assumes "consistent s" and "run ops s = Inr s'"
  shows "subseq (map snd (postponedCalls s')) (map snd (postponedCalls s) @ submitted ops)"
  using assms
proof (induction ops arbitrary: s)
  case Nil
  then show ?case by simp
next
  case (Cons x xs)
  then obtain s1 where s1: "step x s = Inr s1" "run xs s1 = Inr s'"
    by (auto split: sum.splits)
  note eff = step_effect[OF Cons.prems(1) s1(1)]
  note ih = Cons.IH[OF eff(1) s1(2)]
  show ?case
  proof (cases x)
    case RegisterEnterFromEventLoop
    then show ?thesis using ih eff(2) by simp
  next
    case (PostponeCall callable)
    from eff(4)[OF this] obtain f where "callable = Some f"
      "postponedCalls s1 = postponedCalls s @ [(loopNestingLevel s1, f)]"
      by auto
    then show ?thesis using ih PostponeCall by simp
  next
    case IncrementEventNestingLevel
    then show ?thesis using ih eff(3) by simp
  next
    case DecrementEventNestingLevel
    from eff(5)[OF this] have
      q: "postponedCalls s1 = filter (\<lambda>p. fst p \<noteq> eventNestingLevel s - 1) (postponedCalls s)"
      by simp
    have "subseq (map snd (postponedCalls s1)) (map snd (postponedCalls s))"
      unfolding q by (intro subseq_map subseq_filter_left)
    then have "subseq (map snd (postponedCalls s1) @ submitted xs) (map snd (postponedCalls s) @ submitted xs)"
      by (intro list_emb_append_mono subseq_order.refl)
    with ih have "subseq (map snd (postponedCalls s')) (map snd (postponedCalls s) @ submitted xs)"
      by (rule subseq_order.trans)
    then show ?thesis using DecrementEventNestingLevel by simp
  qed
qed

lemma run_invoked_grows:
  assumes "consistent s" and "run ops s = Inr s'"
  shows "\<exists>new. invoked s' = invoked s @ new"
  using assms
proof (induction ops arbitrary: s)
  case Nil
  then show ?case by simp
next
  case (Cons x xs)
  then obtain s1 where s1: "step x s = Inr s1" "run xs s1 = Inr s'"
    by (auto split: sum.splits)
  note eff = step_effect[OF Cons.prems(1) s1(1)]
  from Cons.IH[OF eff(1) s1(2)] obtain new where new: "invoked s' = invoked s1 @ new" ..
  have "\<exists>new1. invoked s1 = invoked s @ new1"
    using eff(2-) by (cases x) auto
  then show ?case using new by auto
qed

text \<open>
  Claim C1, as amended. Take a sequence of scheduler operations from the initial state in
  which each decrement closes an earlier increment and each \<open>postponeCall\<close> is made
  with a dispatch open (event nesting level at least one) and a callable, the callables
  being pairwise different. The sequence runs without failure. A callable \<open>f\<close> is
  recorded at the loop nesting level its \<open>postponeCall\<close> leaves behind; if the
  decrement after \<open>during\<close> is the first one whose resulting event nesting level
  equals that level, then \<open>f\<close> has not been invoked before it, is invoked by it, and
  is invoked exactly once in the whole run. That decrement runs all queued calls
  recorded at the level, in the reverse of their order in the queue, which is the order
  of submission.
\<close>

theorem postponed_call_runs_once_on_unwind:
  assumes valid: "insideDispatch 0 (pre @ PostponeCall (Some f) # during @ DecrementEventNestingLevel # rest)"
    and dist: "distinct (submitted (pre @ PostponeCall (Some f) # during @ DecrementEventNestingLevel # rest))"
  shows "\<exists>s1 s2 s3 s4.
      run (pre @ [PostponeCall (Some f)]) initial = Inr s1
    \<and> last (postponedCalls s1) = (loopNestingLevel s1, f)
    \<and> run during s1 = Inr s2 \<and> decrementEventNestingLevel s2 = Inr s3 \<and> run rest s3 = Inr s4
    \<and> (\<not> revisits (loopNestingLevel s1) (eventNestingLevel s1) during
         \<and> eventNestingLevel s3 = loopNestingLevel s1 \<longrightarrow>
           f \<notin> snd ` set (invoked s2)
         \<and> (loopNestingLevel s1, f) \<in> set (postponedCalls s2)
         \<and> invoked s3 = invoked s2
               @ rev (filter (\<lambda>p. fst p = loopNestingLevel s1) (postponedCalls s2))
         \<and> subseq (map snd (postponedCalls s2)) (submitted (pre @ PostponeCall (Some f) # during))
         \<and> count_list (map snd (invoked s4)) f = 1)"
proof -
  let ?all = "pre @ PostponeCall (Some f) # during @ DecrementEventNestingLevel # rest"
  have c0: "consistent (initial :: 'a sandbox)" by (rule initial_consistent)
  have "insideDispatch (eventNestingLevel (initial :: 'a sandbox)) ?all"
    using valid by (simp add: initial_def)
  from run_insideDispatch[OF c0 this] obtain s4 where r4: "run ?all initial = Inr s4" ..
  have split: "?all = (pre @ [PostponeCall (Some f)]) @ during @ [DecrementEventNestingLevel] @ rest"
    by simp
  from r4 obtain s1 s2 s3 where r1: "run (pre @ [PostponeCall (Some f)]) initial = Inr s1"
    and r2: "run during s1 = Inr s2" and r3: "run [DecrementEventNestingLevel] s2 = Inr s3"
    and r4': "run rest s3 = Inr s4"
    unfolding split run_append_Inr by blast
  from r1 obtain s0 where r0: "run pre initial = Inr s0" and p: "step (PostponeCall (Some f)) s0 = Inr s1"
    unfolding run_append_Inr run_single by blast
  have d: "step DecrementEventNestingLevel s2 = Inr s3"
    using r3 unfolding run_single .
  have cs0: "consistent s0" by (rule run_consistent[OF c0 r0])
  have cs1: "consistent s1" by (rule run_consistent[OF c0 r1])
  have cs2: "consistent s2" by (rule run_consistent[OF cs1 r2])
  have cs3: "consistent s3" by (rule step_effect(1)[OF cs2 d])
  from step_effect(4)[OF cs0 p refl]
  have q1: "postponedCalls s1 = postponedCalls s0 @ [(loopNestingLevel s1, f)]" by auto
  then have last1: "last (postponedCalls s1) = (loopNestingLevel s1, f)" by simp
  have in1: "(loopNestingLevel s1, f) \<in> set (postponedCalls s1)" using q1 by simp
  have main: "f \<notin> snd ` set (invoked s2)
         \<and> (loopNestingLevel s1, f) \<in> set (postponedCalls s2)
         \<and> invoked s3 = invoked s2
               @ rev (filter (\<lambda>p. fst p = loopNestingLevel s1) (postponedCalls s2))
         \<and> subseq (map snd (postponedCalls s2)) (submitted (pre @ PostponeCall (Some f) # during))
         \<and> count_list (map snd (invoked s4)) f = 1"
    if first: "\<not> revisits (loopNestingLevel s1) (eventNestingLevel s1) during"
      and hit: "eventNestingLevel s3 = loopNestingLevel s1"
  proof -
    have "insideDispatch 0 ((pre @ [PostponeCall (Some f)] @ during) @ DecrementEventNestingLevel # rest)"
      using valid by simp
    then have "PostponeCall None \<notin> set (pre @ [PostponeCall (Some f)] @ during)"
      by (intro insideDispatch_no_null[OF insideDispatch_append])
    then have nn: "PostponeCall None \<notin> set during" by simp
    have l0: "0 \<le> loopNestingLevel s1" by (rule loop_nonneg[OF cs1])
    have l1: "loopNestingLevel s1 < eventNestingLevel s1"
      using queue_below_loop(2)[OF cs1 in1] by simp
    from never_revisited[OF cs1 nn first l0 l1] r2 in1
    have in2: "(loopNestingLevel s1, f) \<in> set (postponedCalls s2)" by fastforce
    from step_effect(5)[OF cs2 d refl] hit
    have i3: "invoked s3 = invoked s2
               @ rev (filter (\<lambda>p. fst p = loopNestingLevel s1) (postponedCalls s2))"
      by simp
    have r12: "run (pre @ PostponeCall (Some f) # during) initial = Inr s2"
      using r1 r2 run_append_Inr[of "pre @ [PostponeCall (Some f)]" during initial s2] by simp
    have sub2: "subseq (map snd (postponedCalls s2)) (submitted (pre @ PostponeCall (Some f) # during))"
      using run_subseq[OF c0 r12] by (simp add: initial_def)
    have m2: "mset (map snd (invoked s2)) + mset (map snd (postponedCalls s2))
        = mset (submitted (pre @ PostponeCall (Some f) # during))"
      using run_mset[OF c0 r12] by (simp add: initial_def)
    have d2: "distinct (submitted (pre @ PostponeCall (Some f) # during))"
      using dist by (auto simp: submitted_append)
    have fq: "f \<in># mset (map snd (postponedCalls s2))"
      using in2 by force
    have not2: "f \<notin> snd ` set (invoked s2)"
    proof
      assume "f \<in> snd ` set (invoked s2)"
      then have "f \<in># mset (map snd (invoked s2))" by simp
      then have "1 \<le> count (mset (map snd (invoked s2))) f"
        by (simp only: count_greater_eq_one_iff)
      moreover have "1 \<le> count (mset (map snd (postponedCalls s2))) f"
        using fq by (simp only: count_greater_eq_one_iff)
      ultimately have two: "count (mset (map snd (invoked s2)) + mset (map snd (postponedCalls s2))) f \<ge> 2"
        by (simp only: count_union)
      have one: "count (mset (submitted (pre @ PostponeCall (Some f) # during))) f \<le> 1"
        using d2 by (simp add: distinct_count_atmost_1)
      from two[unfolded m2] one show False by linarith
    qed
    have m4: "mset (map snd (invoked s4)) + mset (map snd (postponedCalls s4)) = mset (submitted ?all)"
      using run_mset[OF c0 r4] by (simp add: initial_def)
    have "count (mset (submitted ?all)) f \<le> 1"
      using dist by (simp only: distinct_count_atmost_1) simp
    then have le: "count (mset (map snd (invoked s4))) f \<le> 1"
      unfolding m4[symmetric] by simp
    from run_invoked_grows[OF cs3 r4'] obtain new where "invoked s4 = invoked s3 @ new" ..
    then have "(loopNestingLevel s1, f) \<in> set (invoked s4)"
      using i3 in2 by simp
    then have "f \<in># mset (map snd (invoked s4))" by force
    then have "count (mset (map snd (invoked s4))) f \<ge> 1"
      by (simp only: count_greater_eq_one_iff)
    with le have "count (mset (map snd (invoked s4))) f = 1" by linarith
    then have "count_list (map snd (invoked s4)) f = 1" by (simp only: count_mset)
    then show ?thesis using not2 in2 i3 sub2 by simp
  qed
  have "decrementEventNestingLevel s2 = Inr s3" using d by simp
  then show ?thesis using r1 last1 r2 r4' main by blast
qed


theorem postponed_call_runs_once_on_unwind_witness:
  "insideDispatch 0 ([IncrementEventNestingLevel] @ PostponeCall (Some (1::nat))
       # [PostponeCall (Some 2)] @ DecrementEventNestingLevel # [])
   \<and> distinct (submitted ([IncrementEventNestingLevel] @ PostponeCall (Some (1::nat))
       # [PostponeCall (Some 2)] @ DecrementEventNestingLevel # []))
   \<and> (\<exists>s1 s2 s3 s4.
      run ([IncrementEventNestingLevel] @ [PostponeCall (Some (1::nat))]) initial = Inr s1
    \<and> last (postponedCalls s1) = (0, 1)
    \<and> run [PostponeCall (Some 2)] s1 = Inr s2 \<and> decrementEventNestingLevel s2 = Inr s3
    \<and> run [] s3 = Inr s4
    \<and> \<not> revisits (loopNestingLevel s1) (eventNestingLevel s1) [PostponeCall (Some (2::nat))]
    \<and> eventNestingLevel s3 = loopNestingLevel s1
    \<and> 1 \<notin> snd ` set (invoked s2)
    \<and> invoked s3 = [(0, 2), (0, 1)]
    \<and> count_list (map snd (invoked s4)) 1 = 1)"
proof -
  let ?s1 = "\<lparr>eventNestingLevel = 1, loopNestingLevel = 0, previousLoopNestingLevels = [],
            postponedCalls = [(0, 1::nat)], invoked = []\<rparr>"
  let ?s2 = "\<lparr>eventNestingLevel = 1, loopNestingLevel = 0, previousLoopNestingLevels = [],
            postponedCalls = [(0, 1::nat), (0, 2)], invoked = []\<rparr>"
  have v: "insideDispatch 0 ([IncrementEventNestingLevel] @ PostponeCall (Some (1::nat))
       # [PostponeCall (Some 2)] @ DecrementEventNestingLevel # [])"
    by simp
  have dd: "distinct (submitted ([IncrementEventNestingLevel] @ PostponeCall (Some (1::nat))
       # [PostponeCall (Some 2)] @ DecrementEventNestingLevel # []))"
    by simp
  from postponed_call_runs_once_on_unwind[OF v dd] obtain s1 s2 s3 s4 where
    r1: "run ([IncrementEventNestingLevel] @ [PostponeCall (Some (1::nat))]) initial = Inr s1"
    and l1: "last (postponedCalls s1) = (loopNestingLevel s1, 1)"
    and r2: "run [PostponeCall (Some 2)] s1 = Inr s2"
    and r3: "decrementEventNestingLevel s2 = Inr s3"
    and r4: "run [] s3 = Inr s4"
    and imp: "\<not> revisits (loopNestingLevel s1) (eventNestingLevel s1) [PostponeCall (Some (2::nat))]
         \<and> eventNestingLevel s3 = loopNestingLevel s1 \<longrightarrow>
           1 \<notin> snd ` set (invoked s2)
         \<and> (loopNestingLevel s1, 1) \<in> set (postponedCalls s2)
         \<and> invoked s3 = invoked s2
               @ rev (filter (\<lambda>p. fst p = loopNestingLevel s1) (postponedCalls s2))
         \<and> subseq (map snd (postponedCalls s2)) (submitted ([IncrementEventNestingLevel] @ PostponeCall (Some 1) # [PostponeCall (Some 2)]))
         \<and> count_list (map snd (invoked s4)) 1 = 1"
    by blast
  have e1: "s1 = ?s1"
    using r1 by (simp add: initial_def incrementEventNestingLevel_def postponeCall_def)
  have e2: "s2 = ?s2"
    using r2 unfolding e1 by (simp add: postponeCall_def)
  have e3: "eventNestingLevel s3 = 0"
    using r3 unfolding e2 by (auto simp: decrementEventNestingLevel_def Let_def)
  have first: "\<not> revisits (loopNestingLevel s1) (eventNestingLevel s1) [PostponeCall (Some (2::nat))]"
    by simp
  have hit: "eventNestingLevel s3 = loopNestingLevel s1"
    using e3 e1 by simp
  from imp first hit have
    c: "1 \<notin> snd ` set (invoked s2)"
      "invoked s3 = invoked s2 @ rev (filter (\<lambda>p. fst p = loopNestingLevel s1) (postponedCalls s2))"
      "count_list (map snd (invoked s4)) 1 = 1"
    by blast+
  have i3: "invoked s3 = [(0, 2), (0, 1)]"
    using c(2) unfolding e1 e2 by simp
  have l1': "last (postponedCalls s1) = (0, 1)" using l1 e1 by simp
  show ?thesis
    using v dd r1 l1' r2 r3 r4 first hit c(1) i3 c(3) by blast
qed

text \<open>
  Claim C1 as stated fails: \<open>postponeCall\<close> at event nesting level zero satisfies the
  precondition on the two levels, and stops at the assertion that the stack of previous
  loop nesting levels is not empty; the callable is never invoked, also not by the
  decrement that returns to level zero.
\<close>

theorem postponeCall_outside_dispatch_fails:
  "paired 0 [PostponeCall (Some (1::nat)), IncrementEventNestingLevel, DecrementEventNestingLevel]
   \<and> loopNestingLevel (initial :: nat sandbox) \<le> eventNestingLevel (initial :: nat sandbox)
   \<and> run [PostponeCall (Some (1::nat)), IncrementEventNestingLevel, DecrementEventNestingLevel] initial
       = Inl AssertFailed"
  by (simp add: initial_def postponeCall_def)


section \<open>Properties of the protocol\<close>

lemma mid_frame:
  assumes "to \<le> length cmds"
  shows "mid cmds (from + k) (to - from - k) = mid (mid cmds from (to - from)) k (length (mid cmds from (to - from)) - k)"
proof -
  have "min (length cmds - from) (to - from) = to - from"
    using assms by arith
  then show ?thesis
    by (simp add: mid_def drop_take add.commute)
qed

lemma processCommand_frame:
  assumes "from \<le> to" and "to \<le> length cmds"
  shows "processCommand h p cmds from to cst
       = processCommand h p (mid cmds from (to - from)) 0 (length (mid cmds from (to - from))) cst"
proof -
  let ?f = "mid cmds from (to - from)"
  have "mid f 0 (length f - 0) = f" for f :: qstring by (simp add: mid_def)
  then have a: "mid ?f 0 (length ?f - 0) = ?f" .
  have b: "mid cmds (from + k) (to - from - k) = mid ?f (0 + k) (length ?f - 0 - k)" for k
    using mid_frame[OF assms(2), of "from" k] by simp
  show ?thesis
    unfolding processCommand_def a b ..
qed

lemma indexOf_Some:
  assumes "d \<in> set (drop from str)"
  shows "indexOf str d from = Some (from + length (takeWhile (\<lambda>c. c \<noteq> d) (drop from str)))"
proof -
  have "length (takeWhile (\<lambda>c. c \<noteq> d) (drop from str)) < length (drop from str)"
    using assms by (rule takeWhile_shorter)
  then show ?thesis by (auto simp: indexOf_def Let_def)
qed

lemma indexOf_None:
  assumes "d \<notin> set (drop from str)"
  shows "indexOf str d from = None"
proof -
  have tw: "takeWhile (\<lambda>c. c \<noteq> d) (drop from str) = drop from str"
    using assms by (auto simp: takeWhile_eq_all_conv)
  show ?thesis unfolding indexOf_def Let_def tw by simp
qed

lemma readFrames_frames:
  assumes "from \<le> length cmds"
  shows "readFrames h p cmds from cst =
     (foldl (\<lambda>cst f. processCommand h p f 0 (length f) cst) cst (frames 0x3B (drop from cmds)),
      length cmds - length (unterminated 0x3B (drop from cmds)))"
  using assms
proof (induction h p cmds "from" cst rule: readFrames.induct)
  case (1 h p cmds "from" cst)
  let ?xs = "drop from cmds"
  show ?case
  proof (cases "0x3B \<in> set ?xs")
    case False
    then have "(if from < length cmds then indexOf cmds 0x3B from else None) = None"
      by (simp add: indexOf_None)
    then have "readFrames h p cmds from cst = (cst, from)"
      by (subst readFrames.simps) simp
    moreover have "frames 0x3B ?xs = []"
      using False by (subst frames.simps) simp
    moreover have "unterminated 0x3B ?xs = ?xs"
      using False by (subst unterminated.simps) simp
    ultimately show ?thesis using 1(2) by simp
  next
    case True
    let ?n = "length (takeWhile (\<lambda>c. c \<noteq> 0x3B) ?xs)"
    let ?to = "from + ?n"
    have lt: "from < length cmds" using True by (cases "from < length cmds") auto
    have io: "(if from < length cmds then indexOf cmds 0x3B from else None) = Some ?to"
      using lt indexOf_Some[OF True] by simp
    have nlt: "?n < length ?xs" using True by (rule takeWhile_shorter)
    then have to: "?to < length cmds" by simp
    have unf: "readFrames h p cmds from cst
        = readFrames h p cmds (?to + 1) (processCommand h p cmds from ?to cst)"
      by (subst readFrames.simps) (simp add: io)
    have fr: "mid cmds from (?to - from) = takeWhile (\<lambda>c. c \<noteq> 0x3B) ?xs"
      by (simp add: mid_def takeWhile_eq_take[symmetric])
    have dr: "drop (?to + 1) cmds = tl (dropWhile (\<lambda>c. c \<noteq> 0x3B) ?xs)"
      by (simp add: dropWhile_eq_drop drop_Suc tl_drop add.commute)
    have pc: "processCommand h p cmds from ?to cst
        = processCommand h p (takeWhile (\<lambda>c. c \<noteq> 0x3B) ?xs) 0 (length (takeWhile (\<lambda>c. c \<noteq> 0x3B) ?xs)) cst"
      using processCommand_frame[of "from" ?to cmds h p cst] to unfolding fr by simp
    have ih: "readFrames h p cmds (?to + 1) (processCommand h p cmds from ?to cst) =
       (foldl (\<lambda>cst f. processCommand h p f 0 (length f) cst) (processCommand h p cmds from ?to cst)
           (frames 0x3B (drop (?to + 1) cmds)),
        length cmds - length (unterminated 0x3B (drop (?to + 1) cmds)))"
      using 1(1)[OF io] to by simp
    have f: "frames 0x3B ?xs = takeWhile (\<lambda>c. c \<noteq> 0x3B) ?xs # frames 0x3B (tl (dropWhile (\<lambda>c. c \<noteq> 0x3B) ?xs))"
      using True by (subst frames.simps) simp
    have u: "unterminated 0x3B ?xs = unterminated 0x3B (tl (dropWhile (\<lambda>c. c \<noteq> 0x3B) ?xs))"
      using True by (subst unterminated.simps) simp
    have "foldl (\<lambda>cst f. processCommand h p f 0 (length f) cst) cst (frames 0x3B ?xs)
        = foldl (\<lambda>cst f. processCommand h p f 0 (length f) cst) (processCommand h p cmds from ?to cst)
           (frames 0x3B (drop (?to + 1) cmds))"
      unfolding f dr pc by simp
    moreover have "unterminated 0x3B ?xs = unterminated 0x3B (drop (?to + 1) cmds)"
      unfolding u dr ..
    ultimately show ?thesis
      using unf ih by simp
  qed
qed

lemma foldl_send:
  "foldl (\<lambda>commands i. commands @ (qsl ''SEND:'' @ escapeTo7bit i @ [0x3B])) acc lst
     = acc @ concat (map (\<lambda>i. qsl ''SEND:'' @ escapeTo7bit i @ [0x3B]) lst)"
  by (induction lst arbitrary: acc) simp_all

lemma toLatin1_append: "toLatin1 (xs @ ys) = toLatin1 xs @ toLatin1 ys"
  by (simp add: toLatin1_def)

lemma toLatin1_concat: "toLatin1 (concat xss) = concat (map toLatin1 xss)"
  by (induction xss) (simp_all add: toLatin1_append, simp add: toLatin1_def)

text \<open>
  Claim C3, as amended. The batch the Secondary writes when its socket connects is one
  \<open>SEND:<escaped-path>;\<close> frame for each pending path, in order, whether or not a
  URL was supplied, followed by exactly one more frame: \<open>OPEN:<escaped-url>;\<close> when
  a URL was supplied and \<open>CMD:show;\<close> when not. With neither paths nor URL the
  batch is exactly \<open>CMD:show;\<close>.
\<close>

theorem socketConnected_batch:
  "socketConnected lst url =
     concat (map (\<lambda>i. latin1 ''SEND:'' @ toLatin1 (escapeTo7bit i) @ latin1 '';'') lst)
     @ (if url \<noteq> [] then latin1 ''OPEN:'' @ toLatin1 (escapeTo7bit url) @ latin1 '';''
        else latin1 ''CMD:show;'')"
proof -
  have l: "toLatin1 (qsl ''SEND:'') = latin1 ''SEND:''" "toLatin1 (qsl ''OPEN:'') = latin1 ''OPEN:''"
    "toLatin1 [0x3B] = latin1 '';''" "toLatin1 (qsl ''CMD:show;'') = latin1 ''CMD:show;''"
    by (simp_all add: toLatin1_def qsl_def latin1_def)
  show ?thesis
    unfolding socketConnected_def Let_def foldl_send
    by (simp add: toLatin1_append toLatin1_concat comp_def l)
qed

theorem socketConnected_batch_witness:
  "socketConnected [] [] = latin1 ''CMD:show;''"
  using socketConnected_batch[of "[]" "[]"] by simp

text \<open>
  Claim C3 as stated fails: with a URL and a path pending, the batch holds the
  \<open>SEND\<close> frame of the path before the \<open>OPEN\<close> frame.
\<close>

theorem socketConnected_url_keeps_send:
  "socketConnected [qsl ''a''] (qsl ''u'') = latin1 ''SEND:a;OPEN:u;''"
  by (simp add: socketConnected_def escapeTo7bit_eq escapeChar_def toLatin1_def qsl_def latin1_def)

lemma frames_none:
  assumes "d \<notin> set xs"
  shows "frames d xs = []" and "unterminated d xs = xs"
  using assms by (subst frames.simps, simp) (subst unterminated.simps, simp add: assms)

lemma until_delimiter:
  assumes "d \<notin> set f"
  shows "takeWhile (\<lambda>c. c \<noteq> d) (f @ d # xs) = f"
    and "dropWhile (\<lambda>c. c \<noteq> d) (f @ d # xs) = d # xs"
  using assms by (induction f) auto

lemma frames_first:
  assumes "d \<notin> set f"
  shows "frames d (f @ d # xs) = f # frames d xs"
    and "unterminated d (f @ d # xs) = unterminated d xs"
proof -
  note t = until_delimiter(1)[OF assms] and dw = until_delimiter(2)[OF assms]
  show "frames d (f @ d # xs) = f # frames d xs"
    by (subst frames.simps) (simp add: t dw)
  show "unterminated d (f @ d # xs) = unterminated d xs"
    by (subst unterminated.simps) (simp add: t dw)
qed

lemma frames_append:
  "frames d (xs @ ys) = frames d xs @ frames d (unterminated d xs @ ys)
   \<and> unterminated d (xs @ ys) = unterminated d (unterminated d xs @ ys)"
proof (induction d xs rule: frames.induct)
  case (1 d xs)
  show ?case
  proof (cases "d \<in> set xs")
    case False
    then show ?thesis by (simp add: frames_none)
  next
    case True
    then obtain f rest where xs: "xs = f @ d # rest" and f: "d \<notin> set f"
      by (meson split_list_first)
    have tl: "tl (dropWhile (\<lambda>c. c \<noteq> d) xs) = rest"
      by (simp add: xs until_delimiter[OF f])
    from 1[OF True] have ih: "frames d (rest @ ys) = frames d rest @ frames d (unterminated d rest @ ys)"
      "unterminated d (rest @ ys) = unterminated d (unterminated d rest @ ys)"
      unfolding tl by simp_all
    have "xs @ ys = f @ d # (rest @ ys)" by (simp add: xs)
    then show ?thesis
      using ih by (simp add: xs frames_first[OF f])
  qed
qed

lemma unterminated_suffix:
  "\<exists>handled. xs = handled @ unterminated d xs \<and> (handled = [] \<or> last handled = d)"
proof (induction d xs rule: unterminated.induct)
  case (1 d xs)
  show ?case
  proof (cases "d \<in> set xs")
    case False
    then show ?thesis by (simp add: frames_none)
  next
    case True
    then obtain f rest where xs: "xs = f @ d # rest" and f: "d \<notin> set f"
      by (meson split_list_first)
    have tl: "tl (dropWhile (\<lambda>c. c \<noteq> d) xs) = rest"
      by (simp add: xs until_delimiter[OF f])
    from 1[OF True] obtain handled where h: "rest = handled @ unterminated d rest"
      "handled = [] \<or> last handled = d"
      unfolding tl by blast
    have "xs = (f @ d # handled) @ unterminated d xs"
      using h(1) by (simp add: xs frames_first[OF f])
    moreover have "last (f @ d # handled) = d" using h(2) by auto
    ultimately show ?thesis by blast
  qed
qed

lemma unterminated_no_delimiter: "d \<notin> set (unterminated d xs)"
proof (induction d xs rule: unterminated.induct)
  case (1 d xs)
  show ?case
  proof (cases "d \<in> set xs")
    case False
    then show ?thesis by (simp add: frames_none)
  next
    case True
    then show ?thesis using 1 by (subst unterminated.simps) simp
  qed
qed

lemma frames_map:
  assumes "\<forall>x. g x = g d \<longleftrightarrow> x = d"
  shows "frames (g d) (map g xs) = map (map g) (frames d xs)
       \<and> unterminated (g d) (map g xs) = map g (unterminated d xs)"
  using assms
proof (induction d xs rule: frames.induct)
  case (1 d xs)
  note inj = "1.prems"
  show ?case
  proof (cases "d \<in> set xs")
    case False
    have "g d \<notin> set (map g xs)"
    proof
      assume "g d \<in> set (map g xs)"
      then obtain x where "x \<in> set xs" "g x = g d" by auto
      then show False using inj False by metis
    qed
    then show ?thesis using False by (simp add: frames_none)
  next
    case True
    then obtain f rest where xs: "xs = f @ d # rest" and f: "d \<notin> set f"
      by (meson split_list_first)
    have gf: "g d \<notin> set (map g f)"
    proof
      assume "g d \<in> set (map g f)"
      then obtain x where "x \<in> set f" "g x = g d" by auto
      then show False using inj f by metis
    qed
    have tl: "tl (dropWhile (\<lambda>c. c \<noteq> d) xs) = rest"
      by (simp add: xs until_delimiter[OF f])
    from "1.IH"[OF True inj] have ih: "frames (g d) (map g rest) = map (map g) (frames d rest)"
      "unterminated (g d) (map g rest) = map g (unterminated d rest)"
      unfolding tl by simp_all
    have "map g xs = map g f @ g d # map g rest" by (simp add: xs)
    then show ?thesis
      using ih by (simp add: xs frames_first[OF f] frames_first[OF gf])
  qed
qed

lemma ucast_semicolon: "(ucast (x :: 8 word) :: 16 word) = ucast (0x3B :: 8 word) \<longleftrightarrow> x = 0x3B"
proof
  assume "(ucast x :: 16 word) = ucast (0x3B :: 8 word)"
  then have "(ucast (ucast x :: 16 word) :: 8 word) = ucast (ucast (0x3B :: 8 word) :: 16 word)"
    by simp
  then show "x = 0x3B" by (simp only: ucast_up_ucast_id is_up len_of_numeral_defs)
qed simp

lemma mid_from_start: "mid f 0 (length f - 0) = f" "mid f (0 + k) (length f - 0 - k) = drop k f"
  by (simp_all add: mid_def)

lemma processCommand_whole:
  "processCommand h p f 0 (length f) (c, st) =
     (if prefix (qsl ''CMD:'') f then
        (writeResponse (applicationPid p) c,
         execExternal p (drop 4 f) (st\<lparr>dispatched := dispatched st @ [Cmd (drop 4 f)]\<rparr>))
      else if prefix (qsl ''SEND:'') f then
        (c, if cSendPaths p = []
            then st\<lparr>dispatched := dispatched st @ [Send (escapeFrom7bit (drop 5 f))],
                    toSend := toSend st @ [escapeFrom7bit (drop 5 f)]\<rparr>
            else st\<lparr>dispatched := dispatched st @ [Send (escapeFrom7bit (drop 5 f))]\<rparr>)
      else if prefix (qsl ''OPEN:'') f then
        (if cStartUrl p = [] then
           (if h (take 8192 (escapeFrom7bit (drop 5 f)))
            then (writeResponse (applicationPid p) c,
                  execExternal p (qsl ''show'')
                    (st\<lparr>dispatched := dispatched st @ [Open (take 8192 (escapeFrom7bit (drop 5 f)))],
                        startUrl := take 8192 (escapeFrom7bit (drop 5 f))\<rparr>))
            else (writeResponse 0 c,
                  st\<lparr>dispatched := dispatched st @ [Open (take 8192 (escapeFrom7bit (drop 5 f)))],
                     startUrl := take 8192 (escapeFrom7bit (drop 5 f))\<rparr>))
         else (writeResponse (applicationPid p) c,
               execExternal p (qsl ''show'')
                 (st\<lparr>dispatched := dispatched st @ [Open (take 8192 (escapeFrom7bit (drop 5 f)))]\<rparr>)))
      else (c, st\<lparr>called := called st @ [LogUnknownCommand f],
                   dispatched := dispatched st @ [Unknown f]\<rparr>))"
proof -
  have m: "mid f 0 (length f - 0) = f" "mid f (0 + 4) (length f - 0 - 4) = drop 4 f"
    "mid f (0 + 5) (length f - 0 - 5) = drop 5 f"
    by (rule mid_from_start)+
  show ?thesis
    unfolding processCommand_def m by (simp add: Let_def)
qed

lemma execExternal_keeps:
  "dispatched (execExternal p cmd st) = dispatched st"
  "toSend (execExternal p cmd st) = toSend st"
  "startUrl (execExternal p cmd st) = startUrl st"
  by (simp_all add: execExternal_def)

lemma processCommand_dispatched:
  "dispatched (snd (processCommand h p f 0 (length f) cst)) = dispatched (snd cst) @ [commandOf f]"
  by (cases cst) (simp add: processCommand_whole commandOf_def execExternal_keeps)

lemma processCommand_client:
  "second (fst (processCommand h p f 0 (length f) cst)) = second (fst cst)"
  "socketData (fst (processCommand h p f 0 (length f) cst)) = socketData (fst cst)"
  by (cases cst, simp add: processCommand_whole writeResponse_def)+

lemma foldl_dispatched:
  "dispatched (snd (foldl (\<lambda>cst f. processCommand h p f 0 (length f) cst) cst fs))
     = dispatched (snd cst) @ map commandOf fs"
  by (induction fs arbitrary: cst) (simp_all add: processCommand_dispatched)

lemma foldl_client:
  "second (fst (foldl (\<lambda>cst f. processCommand h p f 0 (length f) cst) cst fs)) = second (fst cst)"
  "socketData (fst (foldl (\<lambda>cst f. processCommand h p f 0 (length f) cst) cst fs)) = socketData (fst cst)"
  by (induction fs arbitrary: cst) (simp_all add: processCommand_client)



lemma fromLatin1_plain:
  assumes "0 \<notin> set ba"
  shows "fromLatin1 ba = map ucast ba"
proof -
  have "takeWhile (\<lambda>b. b \<noteq> 0) ba = ba"
    using assms by (auto simp: takeWhile_eq_all_conv)
  then show ?thesis unfolding fromLatin1_def by (rule arg_cong)
qed

lemma seen_zero_free: "(0 :: 8 word) \<notin> set (takeWhile (\<lambda>b. b \<noteq> 0) data)"
  by (auto dest: set_takeWhileD)

lemma seen_plain:
  assumes "(0 :: 8 word) \<notin> set data"
  shows "takeWhile (\<lambda>b. b \<noteq> 0) data = data" and "dropWhile (\<lambda>b. b \<noteq> 0) data = []"
  using assms by (auto simp: takeWhile_eq_all_conv)

lemma seen_append:
  assumes "(0 :: 8 word) \<notin> set xs"
  shows "takeWhile (\<lambda>b. b \<noteq> 0) (xs @ ys) = xs @ takeWhile (\<lambda>b. b \<noteq> 0) ys"
    and "dropWhile (\<lambda>b. b \<noteq> 0) (xs @ ys) = dropWhile (\<lambda>b. b \<noteq> 0) ys"
  using assms by (induction xs) auto

lemma seen_cut:
  assumes "(0 :: 8 word) \<in> set xs"
  shows "takeWhile (\<lambda>b. b \<noteq> 0) (xs @ ys) = takeWhile (\<lambda>b. b \<noteq> 0) xs"
    and "dropWhile (\<lambda>b. b \<noteq> 0) (xs @ ys) = dropWhile (\<lambda>b. b \<noteq> 0) xs @ ys"
  using assms by (induction xs) auto

lemma frames_subset:
  assumes "f \<in> set (frames d xs)"
  shows "set f \<subseteq> set xs"
  using assms
proof (induction d xs rule: frames.induct)
  case (1 d xs)
  show ?case
  proof (cases "d \<in> set xs")
    case False
    then show ?thesis using "1.prems" by (simp add: frames_none)
  next
    case True
    then obtain g rest where xs: "xs = g @ d # rest" and g: "d \<notin> set g"
      by (meson split_list_first)
    have tl: "tl (dropWhile (\<lambda>c. c \<noteq> d) xs) = rest"
      by (simp add: xs until_delimiter[OF g])
    have "f = g \<or> f \<in> set (frames d rest)"
      using "1.prems" by (simp add: xs frames_first[OF g])
    then show ?thesis
    proof
      assume "f = g" then show ?thesis by (auto simp: xs)
    next
      assume "f \<in> set (frames d rest)"
      then have "set f \<subseteq> set rest" using "1.IH"[OF True] unfolding tl by simp
      then show ?thesis by (auto simp: xs)
    qed
  qed
qed

lemma unterminated_subset: "set (unterminated d xs) \<subseteq> set xs"
proof -
  from unterminated_suffix[of xs d] obtain handled where "xs = handled @ unterminated d xs"
    by blast
  then have "set xs = set handled \<union> set (unterminated d xs)"
    by (metis set_append)
  then show ?thesis by blast
qed

lemma fromLatin1_frames:
  "frames 0x3B (fromLatin1 data) = map fromLatin1 (frames 0x3B (takeWhile (\<lambda>b. b \<noteq> 0) data))"
  "unterminated 0x3B (fromLatin1 data) = map ucast (unterminated 0x3B (takeWhile (\<lambda>b. b \<noteq> 0) data))"
proof -
  let ?seen = "takeWhile (\<lambda>b. b \<noteq> 0) data"
  have "\<forall>x. (ucast (x :: 8 word) :: 16 word) = ucast (0x3B :: 8 word) \<longleftrightarrow> x = 0x3B"
    using ucast_semicolon by blast
  from frames_map[of ucast, OF this, of ?seen]
  have "frames (ucast (0x3B :: 8 word) :: 16 word) (map ucast ?seen) = map (map ucast) (frames 0x3B ?seen)
      \<and> unterminated (ucast (0x3B :: 8 word) :: 16 word) (map ucast ?seen) = map ucast (unterminated 0x3B ?seen)" .
  moreover have "(ucast (0x3B :: 8 word) :: 16 word) = 0x3B" by simp
  ultimately have m: "frames 0x3B (fromLatin1 data) = map (map ucast) (frames 0x3B ?seen)"
    and u: "unterminated 0x3B (fromLatin1 data) = map ucast (unterminated 0x3B ?seen)"
    by (simp_all add: fromLatin1_def)
  have "map ucast f = fromLatin1 f" if "f \<in> set (frames 0x3B ?seen)" for f
  proof -
    have "set f \<subseteq> set ?seen" using that by (rule frames_subset)
    then have "0 \<notin> set f" using seen_zero_free[of data] by blast
    then show ?thesis by (simp add: fromLatin1_plain)
  qed
  then have "map (map ucast) (frames 0x3B ?seen) = map fromLatin1 (frames 0x3B ?seen)"
    by simp
  then show "frames 0x3B (fromLatin1 data) = map fromLatin1 (frames 0x3B ?seen)"
    using m by simp
  show "unterminated 0x3B (fromLatin1 data) = map ucast (unterminated 0x3B ?seen)"
    by (rule u)
qed

lemma drop_handled:
  "drop (length xs - length (unterminated d xs)) xs = unterminated d xs"
proof -
  from unterminated_suffix[of xs d] obtain handled where h: "xs = handled @ unterminated d xs"
    by blast
  then have "length xs - length (unterminated d xs) = length handled"
    by (metis add_diff_cancel_right' length_append)
  then show ?thesis using h by (metis append_eq_conv_conj)
qed

lemma kept_eq:
  "kept data = unterminated 0x3B (takeWhile (\<lambda>b. b \<noteq> 0) data) @ dropWhile (\<lambda>b. b \<noteq> 0) data"
proof -
  let ?seen = "takeWhile (\<lambda>b. b \<noteq> 0) data"
  let ?u = "unterminated 0x3B ?seen"
  from unterminated_suffix[of ?seen "0x3B"] obtain handled where h: "?seen = handled @ ?u"
    by blast
  then have n: "length ?seen - length ?u = length handled"
    by (metis add_diff_cancel_right' length_append)
  have "data = ?seen @ dropWhile (\<lambda>b. b \<noteq> 0) data" by simp
  then have "data = handled @ (?u @ dropWhile (\<lambda>b. b \<noteq> 0) data)"
    using h by (metis append_assoc)
  then have "drop (length handled) data = ?u @ dropWhile (\<lambda>b. b \<noteq> 0) data"
    by (metis append_eq_conv_conj)
  then show ?thesis
    unfolding kept_def Let_def n .
qed

lemma kept_plain:
  assumes "0 \<notin> set data"
  shows "kept data = unterminated 0x3B data"
  by (simp add: kept_eq seen_plain[OF assms])

lemma seen_kept:
  "takeWhile (\<lambda>b. b \<noteq> 0) (kept data) = unterminated 0x3B (takeWhile (\<lambda>b. b \<noteq> 0) data)"
proof -
  let ?seen = "takeWhile (\<lambda>b. b \<noteq> 0) data"
  let ?u = "unterminated 0x3B ?seen"
  have z: "0 \<notin> set ?u"
    using unterminated_subset[of "0x3B" ?seen] seen_zero_free[of data] by blast
  have "takeWhile (\<lambda>b. b \<noteq> 0) (dropWhile (\<lambda>b. b \<noteq> 0) data) = []"
    by (induction data) simp_all
  then show ?thesis
    unfolding kept_eq seen_append(1)[OF z] by simp
qed

lemma kept_append:
  "frames 0x3B (takeWhile (\<lambda>b. b \<noteq> 0) (xs @ ys))
     = frames 0x3B (takeWhile (\<lambda>b. b \<noteq> 0) xs) @ frames 0x3B (takeWhile (\<lambda>b. b \<noteq> 0) (kept xs @ ys))"
  "kept (xs @ ys) = kept (kept xs @ ys)"
proof -
  let ?u = "unterminated 0x3B (takeWhile (\<lambda>b. b \<noteq> 0) xs)"
  have z: "0 \<notin> set ?u"
    using unterminated_subset[of "0x3B" "takeWhile (\<lambda>b. b \<noteq> 0) xs"] seen_zero_free[of xs] by blast
  have nd: "0x3B \<notin> set ?u" by (rule unterminated_no_delimiter)
  have both: "frames 0x3B (takeWhile (\<lambda>b. b \<noteq> 0) (xs @ ys))
     = frames 0x3B (takeWhile (\<lambda>b. b \<noteq> 0) xs) @ frames 0x3B (takeWhile (\<lambda>b. b \<noteq> 0) (kept xs @ ys))
     \<and> kept (xs @ ys) = kept (kept xs @ ys)"
  proof (cases "0 \<in> set xs")
    case True
    let ?d = "dropWhile (\<lambda>b. b \<noteq> 0) xs"
    have d: "?d \<noteq> []" "hd ?d = 0"
      using True hd_dropWhile[of "\<lambda>b. b \<noteq> 0" xs] by auto
    then have dz: "0 \<in> set ?d" by (cases ?d) auto
    have k: "kept xs @ ys = ?u @ (?d @ ys)" by (simp add: kept_eq)
    have cut: "takeWhile (\<lambda>b. b \<noteq> 0) (?d @ ys) = []" "dropWhile (\<lambda>b. b \<noteq> 0) (?d @ ys) = ?d @ ys"
      using d by (cases ?d, simp, simp)+
    have s: "takeWhile (\<lambda>b. b \<noteq> 0) (kept xs @ ys) = ?u"
      unfolding k seen_append(1)[OF z] cut by simp
    have dr: "dropWhile (\<lambda>b. b \<noteq> 0) (kept xs @ ys) = ?d @ ys"
      unfolding k seen_append(2)[OF z] cut ..
    have "kept (kept xs @ ys) = ?u @ ?d @ ys"
      unfolding kept_eq[of "kept xs @ ys"] s dr by (simp add: frames_none[OF nd])
    moreover have "kept (xs @ ys) = ?u @ ?d @ ys"
      unfolding kept_eq[of "xs @ ys"] seen_cut[OF True] by simp
    ultimately show ?thesis
      unfolding s seen_cut(1)[OF True] by (simp add: frames_none[OF nd])
  next
    case False
    note p = seen_plain[OF False]
    have k: "kept xs = unterminated 0x3B xs" by (rule kept_plain[OF False])
    have z': "0 \<notin> set (unterminated 0x3B xs)" using z unfolding p .
    note fa = frames_append[of "0x3B :: 8 word" xs "takeWhile (\<lambda>b. b \<noteq> 0) ys"]
    have l: "kept (xs @ ys) = unterminated 0x3B (xs @ takeWhile (\<lambda>b. b \<noteq> 0) ys)
                @ dropWhile (\<lambda>b. b \<noteq> 0) ys"
      unfolding kept_eq[of "xs @ ys"] seen_append[OF False] ..
    have r: "kept (unterminated 0x3B xs @ ys)
        = unterminated 0x3B (unterminated 0x3B xs @ takeWhile (\<lambda>b. b \<noteq> 0) ys)
                @ dropWhile (\<lambda>b. b \<noteq> 0) ys"
      unfolding kept_eq[of "unterminated 0x3B xs @ ys"] seen_append[OF z'] ..
    have "kept (xs @ ys) = kept (kept xs @ ys)"
      unfolding k l r using fa by simp
    moreover have "frames 0x3B (takeWhile (\<lambda>b. b \<noteq> 0) (xs @ ys))
     = frames 0x3B (takeWhile (\<lambda>b. b \<noteq> 0) xs) @ frames 0x3B (takeWhile (\<lambda>b. b \<noteq> 0) (kept xs @ ys))"
      unfolding k seen_append(1)[OF False] seen_append(1)[OF z'] p(1) using fa by simp
    ultimately show ?thesis by blast
  qed
  show "frames 0x3B (takeWhile (\<lambda>b. b \<noteq> 0) (xs @ ys))
     = frames 0x3B (takeWhile (\<lambda>b. b \<noteq> 0) xs) @ frames 0x3B (takeWhile (\<lambda>b. b \<noteq> 0) (kept xs @ ys))"
    using both by blast
  show "kept (xs @ ys) = kept (kept xs @ ys)" using both by blast
qed

lemma commandsIn_append:
  "commandsIn (xs @ ys) = commandsIn xs @ commandsIn (kept xs @ ys)"
  unfolding commandsIn_def kept_append(1)[of xs ys] by simp

lemma kept_suffix:
  "\<exists>handled. data = handled @ kept data \<and> (handled = [] \<or> last handled = 0x3B)"
proof -
  let ?seen = "takeWhile (\<lambda>b. b \<noteq> 0) data"
  from unterminated_suffix[of ?seen "0x3B"] obtain handled
    where h: "?seen = handled @ unterminated 0x3B ?seen" "handled = [] \<or> last handled = 0x3B"
    by blast
  have "data = ?seen @ dropWhile (\<lambda>b. b \<noteq> 0) data" by simp
  then have "data = handled @ kept data"
    using h(1) unfolding kept_eq by (metis append_assoc)
  then show ?thesis using h(2) by blast
qed

lemma readClient_frames:
  "readClient h p c st =
     (let data = second c @ socketData c;
          r = foldl (\<lambda>cst f. processCommand h p f 0 (length f) cst)
                (c\<lparr>second := data, socketData := []\<rparr>, st)
                (map fromLatin1 (frames 0x3B (takeWhile (\<lambda>b. b \<noteq> 0) data)))
      in ((fst r)\<lparr>second := kept data\<rparr>, snd r))"
proof (cases "second c @ socketData c = []")
  case True
  then show ?thesis
    by (simp add: readClient_def frames_none kept_def)
next
  case False
  let ?data = "second c @ socketData c"
  let ?seen = "takeWhile (\<lambda>b. b \<noteq> 0) ?data"
  let ?c1 = "c\<lparr>second := ?data, socketData := []\<rparr>"
  let ?r = "foldl (\<lambda>cst f. processCommand h p f 0 (length f) cst) (?c1, st) (map fromLatin1 (frames 0x3B ?seen))"
  let ?from = "length ?seen - length (unterminated 0x3B ?seen)"
  have len: "length (fromLatin1 ?data) = length ?seen" by (simp add: fromLatin1_def)
  have rf: "readFrames h p (fromLatin1 ?data) 0 (?c1, st) = (?r, ?from)"
    by (subst readFrames_frames) (simp_all add: fromLatin1_frames len)
  have sec: "second (fst ?r) = ?data" by (simp add: foldl_client)
  have keep: "(fst ?r)\<lparr>second := drop ?from (second (fst ?r))\<rparr> = (fst ?r)\<lparr>second := kept ?data\<rparr>"
    unfolding sec kept_def Let_def ..
  have zero: "(fst ?r)\<lparr>second := kept ?data\<rparr> = fst ?r" if "?from = 0"
  proof -
    have "kept ?data = ?data" unfolding kept_def Let_def that by simp
    then show ?thesis using sec by simp
  qed
  show ?thesis
  proof (cases "?from = 0")
    case True
    then show ?thesis
      using False rf zero[OF True] by (simp add: readClient_def Let_def)
  next
    case pos: False
    then show ?thesis
      using False rf keep by (simp add: readClient_def Let_def)
  qed
qed

lemma readClient_dispatched:
  "dispatched (snd (readClient h p c st)) = dispatched st @ commandsIn (second c @ socketData c)"
  "second (fst (readClient h p c st)) = kept (second c @ socketData c)"
proof -
  show "dispatched (snd (readClient h p c st)) = dispatched st @ commandsIn (second c @ socketData c)"
    unfolding commandsIn_def by (simp add: readClient_frames Let_def foldl_dispatched)
  show "second (fst (readClient h p c st)) = kept (second c @ socketData c)"
    by (simp add: readClient_frames Let_def)
qed

lemma readEvents_frames:
  assumes "0x3B \<notin> set (takeWhile (\<lambda>b. b \<noteq> 0) (second c))"
  shows "snd (readEvents h events c)
     = commandsIn (second c @ concat (map (\<lambda>e. snd (snd e)) events))
   \<and> second (fst (readEvents h events c))
     = kept (second c @ concat (map (\<lambda>e. snd (snd e)) events))"
  using assms
proof (induction events arbitrary: c)
  case Nil
  then show ?case by (simp add: commandsIn_def kept_eq frames_none)
next
  case (Cons e events)
  let ?r = "readClient h (fst e) (c\<lparr>socketData := snd (snd e)\<rparr>) ((fst (snd e))\<lparr>dispatched := []\<rparr>)"
  let ?piece = "snd (snd e)"
  let ?rest = "concat (map (\<lambda>e. snd (snd e)) events)"
  have d: "dispatched (snd ?r) = commandsIn (second c @ ?piece)"
    and b: "second (fst ?r) = kept (second c @ ?piece)"
    by (simp_all add: readClient_dispatched)
  have "0x3B \<notin> set (takeWhile (\<lambda>b. b \<noteq> 0) (second (fst ?r)))"
    unfolding b seen_kept by (rule unterminated_no_delimiter)
  from Cons.IH[OF this] have ih:
    "snd (readEvents h events (fst ?r)) = commandsIn (kept (second c @ ?piece) @ ?rest)"
    "second (fst (readEvents h events (fst ?r))) = kept (kept (second c @ ?piece) @ ?rest)"
    unfolding b by simp_all
  have "snd (readEvents h (e # events) c) = commandsIn ((second c @ ?piece) @ ?rest)"
    unfolding commandsIn_append[of "second c @ ?piece" ?rest]
    using d ih(1) by (simp add: Let_def)
  moreover have "second (fst (readEvents h (e # events) c)) = kept ((second c @ ?piece) @ ?rest)"
    unfolding kept_append(2)[of "second c @ ?piece" ?rest]
    using ih(2) by (simp add: Let_def)
  ultimately show ?case by simp
qed

text \<open>
  Claim C4. Take a session whose buffer holds no complete frame that the loop can see
  (as after every read, and at the start) and a byte stream cut into pieces in any way,
  one piece per read event. The commands dispatched over the events, each the tag with
  its decoded payload, are those dispatched when the whole stream arrives in one read
  event, whatever the state of the Primary at each event; the buffers agree as well.
  After the events the buffer holds the bytes after the last delimiter the loop found:
  what precedes it is empty or ends with a delimiter, and the buffer has no delimiter
  before its first zero byte, so none at all when the stream holds no zero byte, as
  every stream of frames with escaped payloads.
\<close>

theorem fragmentation_invariance:
  assumes "0x3B \<notin> set (takeWhile (\<lambda>b. b \<noteq> 0) (second c))"
  shows "snd (readEvents h events c)
       = dispatched (snd (readClient h p (c\<lparr>socketData := concat (map (\<lambda>e. snd (snd e)) events)\<rparr>)
                            (st\<lparr>dispatched := []\<rparr>)))
     \<and> second (fst (readEvents h events c))
       = second (fst (readClient h p (c\<lparr>socketData := concat (map (\<lambda>e. snd (snd e)) events)\<rparr>)
                            (st\<lparr>dispatched := []\<rparr>)))
     \<and> 0x3B \<notin> set (takeWhile (\<lambda>b. b \<noteq> 0) (second (fst (readEvents h events c))))
     \<and> (0 \<notin> set (second c @ concat (map (\<lambda>e. snd (snd e)) events))
          \<longrightarrow> 0x3B \<notin> set (second (fst (readEvents h events c))))
     \<and> (\<exists>handled. second c @ concat (map (\<lambda>e. snd (snd e)) events)
                      = handled @ second (fst (readEvents h events c))
                  \<and> (handled = [] \<or> last handled = 0x3B))"
proof -
  let ?stream = "second c @ concat (map (\<lambda>e. snd (snd e)) events)"
  note e = readEvents_frames[OF assms, of h events]
  have 1: "snd (readEvents h events c)
       = dispatched (snd (readClient h p (c\<lparr>socketData := concat (map (\<lambda>e. snd (snd e)) events)\<rparr>)
                            (st\<lparr>dispatched := []\<rparr>)))"
    using e by (simp add: readClient_dispatched)
  have 2: "second (fst (readEvents h events c))
       = second (fst (readClient h p (c\<lparr>socketData := concat (map (\<lambda>e. snd (snd e)) events)\<rparr>)
                            (st\<lparr>dispatched := []\<rparr>)))"
    using e by (simp add: readClient_dispatched)
  have b: "second (fst (readEvents h events c)) = kept ?stream" using e by simp
  have 3: "0x3B \<notin> set (takeWhile (\<lambda>b. b \<noteq> 0) (second (fst (readEvents h events c))))"
    unfolding b seen_kept by (rule unterminated_no_delimiter)
  have 4: "0x3B \<notin> set (second (fst (readEvents h events c)))" if "0 \<notin> set ?stream"
    unfolding b kept_plain[OF that] by (rule unterminated_no_delimiter)
  have 5: "\<exists>handled. ?stream = handled @ second (fst (readEvents h events c))
                  \<and> (handled = [] \<or> last handled = 0x3B)"
    unfolding b by (rule kept_suffix)
  show ?thesis using 1 2 3 4 5 by blast
qed

theorem fragmentation_invariance_witness:
  "0x3B \<notin> set (takeWhile (\<lambda>b. b \<noteq> 0) (second \<lparr>socketData = [], socketWritten = [], second = []\<rparr>))
   \<and> snd (readEvents (\<lambda>u. False)
        [(\<lparr>cSendPaths = [], cStartUrl = [], wnd = True, preLaunchWindow = False,
            application = True, applicationPid = 4711, localClients = [], effects = []\<rparr>, \<lparr>startUrl = [], toSend = [], called = [], dispatched = []\<rparr>, latin1 ''CMD:sh''), (\<lparr>cSendPaths = [], cStartUrl = [], wnd = True, preLaunchWindow = False,
            application = True, applicationPid = 4711, localClients = [], effects = []\<rparr>, \<lparr>startUrl = [], toSend = [], called = [], dispatched = []\<rparr>, latin1 ''ow;SE'')]
        \<lparr>socketData = [], socketWritten = [], second = []\<rparr>) = [Cmd (qsl ''show'')]
   \<and> second (fst (readEvents (\<lambda>u. False)
        [(\<lparr>cSendPaths = [], cStartUrl = [], wnd = True, preLaunchWindow = False,
            application = True, applicationPid = 4711, localClients = [], effects = []\<rparr>, \<lparr>startUrl = [], toSend = [], called = [], dispatched = []\<rparr>, latin1 ''CMD:sh''), (\<lparr>cSendPaths = [], cStartUrl = [], wnd = True, preLaunchWindow = False,
            application = True, applicationPid = 4711, localClients = [], effects = []\<rparr>, \<lparr>startUrl = [], toSend = [], called = [], dispatched = []\<rparr>, latin1 ''ow;SE'')]
        \<lparr>socketData = [], socketWritten = [], second = []\<rparr>)) = latin1 ''SE''"
proof -
  let ?c = "\<lparr>socketData = [], socketWritten = [], second = []\<rparr>"
  let ?p = "\<lparr>cSendPaths = [], cStartUrl = [], wnd = True, preLaunchWindow = False,
            application = True, applicationPid = 4711, localClients = [], effects = []\<rparr>"
  let ?st = "\<lparr>startUrl = [], toSend = [], called = [], dispatched = []\<rparr>"
  let ?events = "[(\<lparr>cSendPaths = [], cStartUrl = [], wnd = True, preLaunchWindow = False,
            application = True, applicationPid = 4711, localClients = [], effects = []\<rparr>, \<lparr>startUrl = [], toSend = [], called = [], dispatched = []\<rparr>, latin1 ''CMD:sh''), (\<lparr>cSendPaths = [], cStartUrl = [], wnd = True, preLaunchWindow = False,
            application = True, applicationPid = 4711, localClients = [], effects = []\<rparr>, \<lparr>startUrl = [], toSend = [], called = [], dispatched = []\<rparr>, latin1 ''ow;SE'')]"
  have a: "0x3B \<notin> set (takeWhile (\<lambda>b. b \<noteq> 0) (second ?c))" by simp
  have whole: "concat (map (\<lambda>e. snd (snd e)) ?events) = latin1 ''CMD:show'' @ 0x3B # latin1 ''SE''"
    by (simp add: latin1_def)
  have z: "0 \<notin> set (latin1 ''CMD:show'' @ 0x3B # latin1 ''SE'')"
    by (simp add: latin1_def)
  have n1: "0x3B \<notin> set (latin1 ''CMD:show'')" and n2: "0x3B \<notin> set (latin1 ''SE'')"
    by (simp_all add: latin1_def)
  have f: "frames 0x3B (latin1 ''CMD:show'' @ 0x3B # latin1 ''SE'') = [latin1 ''CMD:show'']"
    "unterminated 0x3B (latin1 ''CMD:show'' @ 0x3B # latin1 ''SE'') = latin1 ''SE''"
    by (simp_all add: frames_first[OF n1] frames_none[OF n2])
  have c: "commandOf (fromLatin1 (latin1 ''CMD:show'')) = Cmd (qsl ''show'')"
    by (simp add: commandOf_def fromLatin1_def latin1_def qsl_def)
  have ci: "commandsIn (latin1 ''CMD:show'' @ 0x3B # latin1 ''SE'') = [Cmd (qsl ''show'')]"
    unfolding commandsIn_def seen_plain(1)[OF z] f using c by simp
  have k: "kept (latin1 ''CMD:show'' @ 0x3B # latin1 ''SE'') = latin1 ''SE''"
    unfolding kept_plain[OF z] f ..
  from fragmentation_invariance[OF a, of "\<lambda>u. False" ?events ?p ?st]
  show ?thesis
    unfolding whole by (simp add: readClient_dispatched ci k)
qed

lemma readClient_idle:
  assumes "idle c"
  shows "readClient h p c st = (c, st)"
proof -
  have n: "0x3B \<notin> set (takeWhile (\<lambda>b. b \<noteq> 0) (second c))"
    using assms by (auto simp: idle_def dest: set_takeWhileD)
  have k: "kept (second c) = second c"
    unfolding kept_eq frames_none(2)[OF n] by simp
  have "c\<lparr>second := second c, socketData := [], second := second c\<rparr> = c"
    using assms by (cases c) (simp add: idle_def)
  then show ?thesis
    using assms by (simp add: readClient_frames idle_def frames_none(1)[OF n] k Let_def)
qed

lemma readEach_idle:
  assumes "\<forall>c \<in> set cs. idle c"
  shows "readEach h p cs st = (cs, st)"
  using assms by (induction cs arbitrary: st) (simp_all add: readClient_idle Let_def)

lemma readEach_append:
  "readEach h p (xs @ ys) st =
     (fst (readEach h p xs st) @ fst (readEach h p ys (snd (readEach h p xs st))),
      snd (readEach h p ys (snd (readEach h p xs st))))"
  by (induction xs arbitrary: st) (simp_all add: Let_def)

lemma readEach_one_active:
  assumes "\<forall>d \<in> set (before @ after). idle d"
  shows "readEach h p (before @ c # after) st
       = (before @ fst (readClient h p c st) # after, snd (readClient h p c st))"
  using assms by (simp add: readEach_append readEach_idle Let_def)

lemma processCommand_buffer:
  "processCommand h p f 0 (length f) (c\<lparr>second := a, socketData := b\<rparr>, st)
     = ((fst (processCommand h p f 0 (length f) (c, st)))\<lparr>second := a, socketData := b\<rparr>,
        snd (processCommand h p f 0 (length f) (c, st)))"
  by (simp add: processCommand_whole writeResponse_def)

lemma foldl_buffer:
  "foldl (\<lambda>cst f. processCommand h p f 0 (length f) cst) (c\<lparr>second := a, socketData := b\<rparr>, st) fs
     = ((fst (foldl (\<lambda>cst f. processCommand h p f 0 (length f) cst) (c, st) fs))\<lparr>second := a, socketData := b\<rparr>,
        snd (foldl (\<lambda>cst f. processCommand h p f 0 (length f) cst) (c, st) fs))"
proof (induction fs arbitrary: c st)
  case Nil
  then show ?case by simp
next
  case (Cons f fs)
  obtain c' st' where r: "processCommand h p f 0 (length f) (c, st) = (c', st')"
    by (cases "processCommand h p f 0 (length f) (c, st)")
  show ?case
    using Cons.IH[of c' st'] by (simp add: processCommand_buffer r)
qed

lemma readClient_fold:
  "readClient h p c st =
     ((fst (foldl (\<lambda>cst f. processCommand h p f 0 (length f) cst) (c, st)
              (map fromLatin1 (frames 0x3B (takeWhile (\<lambda>b. b \<noteq> 0) (second c @ socketData c))))))
         \<lparr>second := kept (second c @ socketData c), socketData := []\<rparr>,
      snd (foldl (\<lambda>cst f. processCommand h p f 0 (length f) cst) (c, st)
              (map fromLatin1 (frames 0x3B (takeWhile (\<lambda>b. b \<noteq> 0) (second c @ socketData c))))))"
  by (simp add: readClient_frames Let_def foldl_buffer)

lemma frame_first:
  assumes "0x3B \<notin> set f" and "0 \<notin> set f"
  shows "frames 0x3B (takeWhile (\<lambda>b. b \<noteq> 0) (f @ 0x3B # rest))
           = f # frames 0x3B (takeWhile (\<lambda>b. b \<noteq> 0) rest)"
    and "kept (f @ 0x3B # rest) = kept rest"
proof -
  have z: "(0 :: 8 word) \<notin> set (f @ [0x3B])" using assms(2) by simp
  have s: "takeWhile (\<lambda>b. b \<noteq> 0) (f @ 0x3B # rest) = f @ 0x3B # takeWhile (\<lambda>b. b \<noteq> 0) rest"
    "dropWhile (\<lambda>b. b \<noteq> 0) (f @ 0x3B # rest) = dropWhile (\<lambda>b. b \<noteq> 0) rest"
    using seen_append[OF z, of rest] by simp_all
  show "frames 0x3B (takeWhile (\<lambda>b. b \<noteq> 0) (f @ 0x3B # rest))
           = f # frames 0x3B (takeWhile (\<lambda>b. b \<noteq> 0) rest)"
    unfolding s by (rule frames_first(1)[OF assms(1)])
  show "kept (f @ 0x3B # rest) = kept rest"
    unfolding kept_eq s frames_first(2)[OF assms(1)] ..
qed

lemma readClient_step:
  assumes "second c @ socketData c = f @ 0x3B # rest" and "0x3B \<notin> set f" and "0 \<notin> set f"
  shows "readClient h p c st =
     readClient h p ((fst (processCommand h p (fromLatin1 f) 0 (length (fromLatin1 f)) (c, st)))
                        \<lparr>second := [], socketData := rest\<rparr>)
       (snd (processCommand h p (fromLatin1 f) 0 (length (fromLatin1 f)) (c, st)))"
proof -
  obtain c' st' where r: "processCommand h p (fromLatin1 f) 0 (length (fromLatin1 f)) (c, st) = (c', st')"
    by (cases "processCommand h p (fromLatin1 f) 0 (length (fromLatin1 f)) (c, st)")
  note fr = frame_first[OF assms(2,3), of rest]
  have L: "readClient h p c st =
     ((fst (foldl (\<lambda>cst f. processCommand h p f 0 (length f) cst) (c', st')
              (map fromLatin1 (frames 0x3B (takeWhile (\<lambda>b. b \<noteq> 0) rest)))))
         \<lparr>second := kept rest, socketData := []\<rparr>,
      snd (foldl (\<lambda>cst f. processCommand h p f 0 (length f) cst) (c', st')
              (map fromLatin1 (frames 0x3B (takeWhile (\<lambda>b. b \<noteq> 0) rest)))))"
    by (subst readClient_fold) (simp add: assms(1) fr r)
  have R: "readClient h p (c'\<lparr>second := [], socketData := rest\<rparr>) st' =
     ((fst (foldl (\<lambda>cst f. processCommand h p f 0 (length f) cst) (c', st')
              (map fromLatin1 (frames 0x3B (takeWhile (\<lambda>b. b \<noteq> 0) rest)))))
         \<lparr>second := kept rest, socketData := []\<rparr>,
      snd (foldl (\<lambda>cst f. processCommand h p f 0 (length f) cst) (c', st')
              (map fromLatin1 (frames 0x3B (takeWhile (\<lambda>b. b \<noteq> 0) rest)))))"
    by (subst readClient_fold) (simp add: foldl_buffer)
  show ?thesis
    unfolding r fst_conv snd_conv L R ..
qed

lemma readClient_rebuffer:
  assumes "second c @ socketData c = a @ b"
  shows "readClient h p c st = readClient h p (c\<lparr>second := a, socketData := b\<rparr>) st"
proof -
  have "readClient h p (c\<lparr>second := a, socketData := b\<rparr>) st =
     ((fst (foldl (\<lambda>cst f. processCommand h p f 0 (length f) cst) (c, st)
              (map fromLatin1 (frames 0x3B (takeWhile (\<lambda>b. b \<noteq> 0) (a @ b))))))
         \<lparr>second := kept (a @ b), socketData := []\<rparr>,
      snd (foldl (\<lambda>cst f. processCommand h p f 0 (length f) cst) (c, st)
              (map fromLatin1 (frames 0x3B (takeWhile (\<lambda>b. b \<noteq> 0) (a @ b))))))"
    by (subst readClient_fold) (simp add: foldl_buffer)
  then show ?thesis
    by (subst readClient_fold) (simp add: assms)
qed

lemma literals:
  "fromLatin1 (latin1 ''CMD:'' @ xs) = qsl ''CMD:'' @ fromLatin1 xs"
  "fromLatin1 (latin1 ''SEND:'' @ xs) = qsl ''SEND:'' @ fromLatin1 xs"
  "fromLatin1 (latin1 ''OPEN:'' @ xs) = qsl ''OPEN:'' @ fromLatin1 xs"
  "0x3B \<notin> set (latin1 ''CMD:'')" "0x3B \<notin> set (latin1 ''SEND:'')" "0x3B \<notin> set (latin1 ''OPEN:'')"
  "\<not> prefix (qsl ''CMD:'') (qsl ''SEND:'' @ ys)" "\<not> prefix (qsl ''CMD:'') (qsl ''OPEN:'' @ ys)"
  "\<not> prefix (qsl ''SEND:'') (qsl ''OPEN:'' @ ys)"
  "drop 4 (qsl ''CMD:'' @ ys) = ys" "drop 5 (qsl ''SEND:'' @ ys) = ys" "drop 5 (qsl ''OPEN:'' @ ys) = ys"
  "toLatin1 (qsl ''RES:'' @ number n @ qsl '';'') = latin1 ''RES:'' @ toLatin1 (number n) @ latin1 '';''"
  "toLatin1 (number 0) = latin1 ''0''"
  "0 \<notin> set (latin1 ''CMD:'')" "0 \<notin> set (latin1 ''SEND:'')" "0 \<notin> set (latin1 ''OPEN:'')"
  by (simp_all add: fromLatin1_def latin1_def qsl_def toLatin1_def number.simps)

lemma step_cmd:
  assumes "second c @ socketData c = latin1 ''CMD:'' @ payload @ 0x3B # rest"
    and "0x3B \<notin> set payload" and "0 \<notin> set payload"
  shows "readClient h p c st =
     readClient h p
       (c\<lparr>socketWritten := socketWritten c
             @ latin1 ''RES:'' @ toLatin1 (number (applicationPid p)) @ latin1 '';'',
          second := [], socketData := rest\<rparr>)
       (st\<lparr>dispatched := dispatched st @ [Cmd (fromLatin1 payload)],
           called := called st
             @ (if fromLatin1 payload = qsl ''show''
                then (if wnd p then [ActivateMainWindow]
                      else if preLaunchWindow p then [ActivatePreLaunchWindow] else [])
                else [])\<rparr>)"
proof -
  have d: "second c @ socketData c = (latin1 ''CMD:'' @ payload) @ 0x3B # rest"
    using assms(1) by simp
  have n: "0x3B \<notin> set (latin1 ''CMD:'' @ payload)"
    using assms(2) literals(4) by simp
  have z: "0 \<notin> set (latin1 ''CMD:'' @ payload)"
    using assms(3) literals(15) by simp
  have pc: "processCommand h p (fromLatin1 (latin1 ''CMD:'' @ payload)) 0
              (length (fromLatin1 (latin1 ''CMD:'' @ payload))) (c, st)
      = (writeResponse (applicationPid p) c,
         execExternal p (fromLatin1 payload) (st\<lparr>dispatched := dispatched st @ [Cmd (fromLatin1 payload)]\<rparr>))"
    by (subst processCommand_whole) (simp add: literals del: drop_append)
  show ?thesis
    unfolding readClient_step[OF d n z] pc
    by (simp add: writeResponse_def execExternal_def literals)
qed

lemma step_send:
  assumes "second c @ socketData c = latin1 ''SEND:'' @ payload @ 0x3B # rest"
    and "0x3B \<notin> set payload" and "0 \<notin> set payload"
  shows "readClient h p c st =
     readClient h p (c\<lparr>second := [], socketData := rest\<rparr>)
       (if cSendPaths p = []
        then st\<lparr>dispatched := dispatched st @ [Send (escapeFrom7bit (fromLatin1 payload))],
                toSend := toSend st @ [escapeFrom7bit (fromLatin1 payload)]\<rparr>
        else st\<lparr>dispatched := dispatched st @ [Send (escapeFrom7bit (fromLatin1 payload))]\<rparr>)"
proof -
  have d: "second c @ socketData c = (latin1 ''SEND:'' @ payload) @ 0x3B # rest"
    using assms(1) by simp
  have n: "0x3B \<notin> set (latin1 ''SEND:'' @ payload)"
    using assms(2) literals(5) by simp
  have z: "0 \<notin> set (latin1 ''SEND:'' @ payload)"
    using assms(3) literals(16) by simp
  have pc: "processCommand h p (fromLatin1 (latin1 ''SEND:'' @ payload)) 0
              (length (fromLatin1 (latin1 ''SEND:'' @ payload))) (c, st)
      = (c, if cSendPaths p = []
            then st\<lparr>dispatched := dispatched st @ [Send (escapeFrom7bit (fromLatin1 payload))],
                    toSend := toSend st @ [escapeFrom7bit (fromLatin1 payload)]\<rparr>
            else st\<lparr>dispatched := dispatched st @ [Send (escapeFrom7bit (fromLatin1 payload))]\<rparr>)"
    by (subst processCommand_whole) (simp add: literals del: drop_append)
  show ?thesis
    unfolding readClient_step[OF d n z] pc by simp
qed

lemma step_open:
  assumes "second c @ socketData c = latin1 ''OPEN:'' @ payload @ 0x3B # rest"
    and "0x3B \<notin> set payload" and "0 \<notin> set payload" and "cStartUrl p = []"
  shows "readClient h p c st =
     readClient h p
       (c\<lparr>socketWritten := socketWritten c @ latin1 ''RES:''
             @ toLatin1 (number (if h (take 8192 (escapeFrom7bit (fromLatin1 payload)))
                                 then applicationPid p else 0)) @ latin1 '';'',
          second := [], socketData := rest\<rparr>)
       (st\<lparr>dispatched := dispatched st @ [Open (take 8192 (escapeFrom7bit (fromLatin1 payload)))],
           startUrl := take 8192 (escapeFrom7bit (fromLatin1 payload)),
           called := called st
             @ (if h (take 8192 (escapeFrom7bit (fromLatin1 payload)))
                then (if wnd p then [ActivateMainWindow]
                      else if preLaunchWindow p then [ActivatePreLaunchWindow] else [])
                else [])\<rparr>)"
proof -
  have d: "second c @ socketData c = (latin1 ''OPEN:'' @ payload) @ 0x3B # rest"
    using assms(1) by simp
  have n: "0x3B \<notin> set (latin1 ''OPEN:'' @ payload)"
    using assms(2) literals(6) by simp
  have z: "0 \<notin> set (latin1 ''OPEN:'' @ payload)"
    using assms(3) literals(17) by simp
  let ?url = "take 8192 (escapeFrom7bit (fromLatin1 payload))"
  have pc: "processCommand h p (fromLatin1 (latin1 ''OPEN:'' @ payload)) 0
              (length (fromLatin1 (latin1 ''OPEN:'' @ payload))) (c, st)
      = (if h ?url
            then (writeResponse (applicationPid p) c,
                  execExternal p (qsl ''show'')
                    (st\<lparr>dispatched := dispatched st @ [Open ?url], startUrl := ?url\<rparr>))
            else (writeResponse 0 c,
                  st\<lparr>dispatched := dispatched st @ [Open ?url], startUrl := ?url\<rparr>))"
    by (subst processCommand_whole) (simp add: literals assms(4) del: drop_append)
  show ?thesis
    unfolding readClient_step[OF d n z] pc
    by (simp add: writeResponse_def execExternal_def literals)
qed

lemma step_unknown:
  assumes "second c @ socketData c = frame @ 0x3B # rest" and "0x3B \<notin> set frame"
    and "0 \<notin> set frame"
    and "\<not> prefix (qsl ''CMD:'') (fromLatin1 frame)"
    and "\<not> prefix (qsl ''SEND:'') (fromLatin1 frame)"
    and "\<not> prefix (qsl ''OPEN:'') (fromLatin1 frame)"
  shows "readClient h p c st =
     readClient h p (c\<lparr>second := [], socketData := rest\<rparr>)
       (st\<lparr>called := called st @ [LogUnknownCommand (fromLatin1 frame)],
           dispatched := dispatched st @ [Unknown (fromLatin1 frame)]\<rparr>)"
proof -
  have pc: "processCommand h p (fromLatin1 frame) 0 (length (fromLatin1 frame)) (c, st)
      = (c, st\<lparr>called := called st @ [LogUnknownCommand (fromLatin1 frame)],
                dispatched := dispatched st @ [Unknown (fromLatin1 frame)]\<rparr>)"
    by (subst processCommand_whole) (simp add: assms(4-6))
  show ?thesis
    unfolding readClient_step[OF assms(1,2,3)] pc by simp
qed

lemma readClient_stuck:
  assumes "second c @ socketData c = f @ 0 # rest" and "0x3B \<notin> set f" and "0 \<notin> set f"
  shows "readClient h p c st = (c\<lparr>second := f @ 0 # rest, socketData := []\<rparr>, st)"
proof -
  have s: "takeWhile (\<lambda>b. b \<noteq> 0) (f @ 0 # rest) = f"
    "dropWhile (\<lambda>b. b \<noteq> 0) (f @ 0 # rest) = 0 # rest"
    using seen_append[OF assms(3), of "0 # rest"] by simp_all
  have k: "kept (f @ 0 # rest) = f @ 0 # rest"
    unfolding kept_eq s frames_none(2)[OF assms(2)] by simp
  show ?thesis
    by (subst readClient_fold) (simp add: assms(1) s k frames_none(1)[OF assms(2)])
qed

lemma toHex_ascii: "toHex v \<le> 0x7F \<and> toHex v \<noteq> 0"
proof -
  define w where "w = v AND 0x000F"
  have "w \<le> 15" unfolding w_def by (rule word_and_le1)
  then have "unat w \<le> 15" by (simp add: word_le_nat_alt)
  then have "unat w = 0 \<or> unat w = 1 \<or> unat w = 2 \<or> unat w = 3 \<or> unat w = 4 \<or> unat w = 5
      \<or> unat w = 6 \<or> unat w = 7 \<or> unat w = 8 \<or> unat w = 9 \<or> unat w = 10 \<or> unat w = 11
      \<or> unat w = 12 \<or> unat w = 13 \<or> unat w = 14 \<or> unat w = 15" by arith
  moreover have "word_of_nat (unat w) = w" by simp
  ultimately have "w \<in> {0,1,2,3,4,5,6,7,8,9,10,11,12,13,14,15}"
    by (elim disjE) auto
  then show ?thesis
    unfolding toHex_def Let_def w_def[symmetric]
    by (auto simp: word_le_nat_alt)
qed

lemma escapeChar_ascii:
  assumes "ch \<in> set (escapeChar u)"
  shows "ch \<le> 0x7F \<and> ch \<noteq> 0"
proof (cases "u < 32 \<or> u > 127 \<or> u = 0x25")
  case True
  then have "escapeChar u = [0x25, toHex (drop_bit 12 u), toHex (drop_bit 8 u), toHex (drop_bit 4 u), toHex u]"
    unfolding escapeChar_def by (rule if_P)
  then show ?thesis using assms toHex_ascii by auto
next
  case False
  then have "escapeChar u = [u]" unfolding escapeChar_def by (rule if_not_P)
  then show ?thesis using assms False by (auto simp: not_less)
qed

lemma latin1_roundtrip:
  assumes "ch \<le> (0x7F :: 16 word)"
  shows "(ucast (if ch > 0xFF then 0x3F else (ucast ch :: 8 word)) :: 16 word) = ch"
proof -
  have le: "ch \<le> 0xFF" using assms by (simp add: word_le_nat_alt)
  then have "ch < 2 ^ 8" by (simp add: word_less_nat_alt word_le_nat_alt)
  then have "ch AND mask 8 = ch" by (rule less_mask_eq)
  then have "take_bit 8 ch = ch" by (simp add: take_bit_eq_mask)
  moreover have "(ucast (ucast ch :: 8 word) :: 16 word) = take_bit 8 ch"
    by (simp add: unsigned_ucast_eq)
  ultimately show ?thesis using le by (simp add: not_less[symmetric])
qed

lemma escaped_zero_free: "0 \<notin> set (toLatin1 (escapeTo7bit s))"
proof
  assume "0 \<in> set (toLatin1 (escapeTo7bit s))"
  then obtain ch where ch: "ch \<in> set (escapeTo7bit s)"
    and z: "(if ch > 0xFF then 0x3F else (ucast ch :: 8 word)) = 0"
    unfolding toLatin1_def by auto
  from ch have a: "ch \<le> 0x7F \<and> ch \<noteq> 0"
    unfolding escapeTo7bit_eq using escapeChar_ascii by auto
  then have "(ucast (if ch > 0xFF then 0x3F else (ucast ch :: 8 word)) :: 16 word) = ch"
    using latin1_roundtrip by blast
  then have "ch = 0" unfolding z by simp
  then show False using a by simp
qed

lemma escapeTo7bit_latin1: "fromLatin1 (toLatin1 (escapeTo7bit s)) = escapeTo7bit s"
proof -
  have "\<forall>ch \<in> set (escapeTo7bit s). ch \<le> 0x7F"
    unfolding escapeTo7bit_eq using escapeChar_ascii by auto
  then have "map ucast (toLatin1 (escapeTo7bit s)) = escapeTo7bit s"
    unfolding toLatin1_def map_map comp_def
    by (simp add: map_idI latin1_roundtrip)
  then show ?thesis
    unfolding fromLatin1_plain[OF escaped_zero_free] .
qed

lemma readClient_done:
  "readClient h p (c\<lparr>second := [], socketData := []\<rparr>) st = (c\<lparr>second := [], socketData := []\<rparr>, st)"
  by (rule readClient_idle) (simp add: idle_def)

lemma steps_send:
  assumes "second c @ socketData c
             = concat (map (\<lambda>q. latin1 ''SEND:'' @ q @ latin1 '';'') payloads) @ rest"
    and "\<forall>q \<in> set payloads. 0x3B \<notin> set q \<and> 0 \<notin> set q" and "cSendPaths p = []"
  shows "readClient h p c st =
     readClient h p (c\<lparr>second := [], socketData := rest\<rparr>)
       (st\<lparr>dispatched := dispatched st @ map (\<lambda>q. Send (escapeFrom7bit (fromLatin1 q))) payloads,
           toSend := toSend st @ map (\<lambda>q. escapeFrom7bit (fromLatin1 q)) payloads\<rparr>)"
  using assms(1,2)
proof (induction payloads arbitrary: c st)
  case Nil
  then have "second c @ socketData c = [] @ rest" by simp
  from readClient_rebuffer[OF this] show ?case by simp
next
  case (Cons q qs)
  have semi: "latin1 '';'' = [0x3B]" by (simp add: latin1_def)
  have d: "second c @ socketData c = latin1 ''SEND:'' @ q @ 0x3B
             # (concat (map (\<lambda>q. latin1 ''SEND:'' @ q @ latin1 '';'') qs) @ rest)"
    using Cons.prems(1) by (simp add: semi)
  have n: "0x3B \<notin> set q" and z: "0 \<notin> set q" using Cons.prems(2) by simp_all
  let ?c1 = "c\<lparr>second := [], socketData := concat (map (\<lambda>q. latin1 ''SEND:'' @ q @ latin1 '';'') qs) @ rest\<rparr>"
  let ?st1 = "st\<lparr>dispatched := dispatched st @ [Send (escapeFrom7bit (fromLatin1 q))],
                toSend := toSend st @ [escapeFrom7bit (fromLatin1 q)]\<rparr>"
  have "readClient h p c st = readClient h p ?c1 ?st1"
    using step_send[OF d n z, of h p st] assms(3) by simp
  also have "\<dots> = readClient h p (?c1\<lparr>second := [], socketData := rest\<rparr>)
       (?st1\<lparr>dispatched := dispatched ?st1 @ map (\<lambda>q. Send (escapeFrom7bit (fromLatin1 q))) qs,
           toSend := toSend ?st1 @ map (\<lambda>q. escapeFrom7bit (fromLatin1 q)) qs\<rparr>)"
    using Cons.prems(2) by (intro Cons.IH) simp_all
  finally show ?case by simp
qed

lemma readClients_one_active:
  assumes "localClients p = before @ c # after" and "\<forall>d \<in> set (before @ after). idle d"
    and "readClient h p c \<lparr>startUrl = [], toSend = [], called = effects p, dispatched = []\<rparr> = (c', st)"
  shows "localClients (readClients h p) = before @ c' # after"
    and "cSendPaths (readClients h p) = cSendPaths p @ toSend st"
    and "cStartUrl (readClients h p) = (if startUrl st \<noteq> [] then startUrl st else cStartUrl p)"
    and "effects (readClients h p) = called st
           @ (if cSendPaths p @ toSend st \<noteq> [] \<and> wnd p
              then [MainWindowSendPaths (cSendPaths p @ toSend st)] else [])
           @ (if application p then [ApplicationCheckStartUrl] else [])"
    and "wnd (readClients h p) = wnd p" and "applicationPid (readClients h p) = applicationPid p"
proof -
  have r: "readEach h p (localClients p) \<lparr>startUrl = [], toSend = [], called = effects p, dispatched = []\<rparr>
      = (before @ c' # after, st)"
    unfolding assms(1) readEach_one_active[OF assms(2)] assms(3) by simp
  show "localClients (readClients h p) = before @ c' # after"
    by (simp add: readClients_def r Let_def)
  show "cSendPaths (readClients h p) = cSendPaths p @ toSend st"
    by (simp add: readClients_def r Let_def)
  show "cStartUrl (readClients h p) = (if startUrl st \<noteq> [] then startUrl st else cStartUrl p)"
    by (simp add: readClients_def r Let_def)
  show "effects (readClients h p) = called st
           @ (if cSendPaths p @ toSend st \<noteq> [] \<and> wnd p
              then [MainWindowSendPaths (cSendPaths p @ toSend st)] else [])
           @ (if application p then [ApplicationCheckStartUrl] else [])"
    by (simp add: readClients_def r Let_def)
  show "wnd (readClients h p) = wnd p" "applicationPid (readClients h p) = applicationPid p"
    by (simp_all add: readClients_def r Let_def)
qed

text \<open>
  What holds for a batch of \<open>SEND\<close> frames followed by \<open>CMD:show;\<close> when no
  payload holds a delimiter or a zero byte: one reply, and the decoded payloads become
  the pending paths, in the order sent; escaped paths are received as the paths they
  were.
\<close>

lemma send_frames_delivered:
  assumes "localClients p = before @ c # after" and "\<forall>d \<in> set (before @ after). idle d"
    and "second c = []"
    and "socketData c = concat (map (\<lambda>q. latin1 ''SEND:'' @ q @ latin1 '';'') payloads)
                          @ latin1 ''CMD:show;''"
    and "\<forall>q \<in> set payloads. 0x3B \<notin> set q \<and> 0 \<notin> set q"
    and "cSendPaths p = []"
  shows "localClients (readClients h p)
       = before @ c\<lparr>socketWritten := socketWritten c
                       @ latin1 ''RES:'' @ toLatin1 (number (applicationPid p)) @ latin1 '';'',
                    second := [], socketData := []\<rparr> # after
     \<and> cSendPaths (readClients h p) = map (\<lambda>q. escapeFrom7bit (fromLatin1 q)) payloads
     \<and> effects (readClients h p) = effects p
           @ (if wnd p then [ActivateMainWindow]
              else if preLaunchWindow p then [ActivatePreLaunchWindow] else [])
           @ (if payloads \<noteq> [] \<and> wnd p
              then [MainWindowSendPaths (map (\<lambda>q. escapeFrom7bit (fromLatin1 q)) payloads)] else [])
           @ (if application p then [ApplicationCheckStartUrl] else [])
     \<and> (\<forall>paths. payloads = map (\<lambda>i. toLatin1 (escapeTo7bit i)) paths
            \<longrightarrow> cSendPaths (readClients h p) = paths)"
proof -
  let ?st0 = "\<lparr>startUrl = [], toSend = [], called = effects p, dispatched = []\<rparr>"
  let ?dec = "map (\<lambda>q. escapeFrom7bit (fromLatin1 q)) payloads"
  let ?st1 = "?st0\<lparr>dispatched := dispatched ?st0 @ map (\<lambda>q. Send (escapeFrom7bit (fromLatin1 q))) payloads,
           toSend := toSend ?st0 @ ?dec\<rparr>"
  let ?c1 = "c\<lparr>second := [], socketData := latin1 ''CMD:show;''\<rparr>"
  have d: "second c @ socketData c
      = concat (map (\<lambda>q. latin1 ''SEND:'' @ q @ latin1 '';'') payloads) @ latin1 ''CMD:show;''"
    using assms(3,4) by simp
  have 1: "readClient h p c ?st0 = readClient h p ?c1 ?st1"
    by (rule steps_send[OF d assms(5,6)])
  have d2: "second ?c1 @ socketData ?c1 = latin1 ''CMD:'' @ latin1 ''show'' @ 0x3B # []"
    by (simp add: latin1_def)
  have n2: "0x3B \<notin> set (latin1 ''show'')" "0 \<notin> set (latin1 ''show'')" by (simp_all add: latin1_def)
  have sh: "fromLatin1 (latin1 ''show'') = qsl ''show''"
    by (simp add: fromLatin1_def latin1_def qsl_def)
  let ?c2 = "c\<lparr>socketWritten := socketWritten c
                       @ latin1 ''RES:'' @ toLatin1 (number (applicationPid p)) @ latin1 '';'',
                    second := [], socketData := []\<rparr>"
  let ?st2 = "?st1\<lparr>dispatched := dispatched ?st1 @ [Cmd (qsl ''show'')],
                called := effects p @ (if wnd p then [ActivateMainWindow]
                      else if preLaunchWindow p then [ActivatePreLaunchWindow] else [])\<rparr>"
  have 2: "readClient h p ?c1 ?st1 = (?c2, ?st2)"
    unfolding step_cmd[OF d2 n2] sh
    using readClient_done[of h p "c\<lparr>socketWritten := socketWritten c
                       @ latin1 ''RES:'' @ toLatin1 (number (applicationPid p)) @ latin1 '';''\<rparr>"]
    by simp
  note rc = readClients_one_active[OF assms(1,2) 1[unfolded 2]]
  have a: "localClients (readClients h p) = before @ ?c2 # after" by (rule rc(1))
  have b: "cSendPaths (readClients h p) = ?dec" using rc(2) assms(6) by simp
  have e: "effects (readClients h p) = effects p
           @ (if wnd p then [ActivateMainWindow]
              else if preLaunchWindow p then [ActivatePreLaunchWindow] else [])
           @ (if payloads \<noteq> [] \<and> wnd p then [MainWindowSendPaths ?dec] else [])
           @ (if application p then [ApplicationCheckStartUrl] else [])"
    using rc(4) assms(6) by simp
  have f: "cSendPaths (readClients h p) = paths"
    if "payloads = map (\<lambda>i. toLatin1 (escapeTo7bit i)) paths" for paths
  proof -
    have rt: "escapeFrom7bit (escapeTo7bit s) = s" for s
      by (simp add: escapeTo7bit_eq escapeFrom7bit_eq unescapeList_concat_escapeChar)
    show ?thesis
      unfolding b that by (simp add: comp_def escapeTo7bit_latin1 rt)
  qed
  show ?thesis using a b e f by blast
qed

text \<open>
  Claim C5 does not hold on the code. A Secondary started with the one path
  \<open>/tmp/a;b.txt\<close> writes \<open>SEND:/tmp/a;b.txt;CMD:show;\<close>, because
  \<open>_escapeTo7bit\<close> leaves the delimiter \<open>;\<close> as it is. The Primary, with no
  pending paths, ends the \<open>SEND\<close> frame at that delimiter: the path it stores and
  hands to the main window is \<open>/tmp/a\<close>, not the path sent, and \<open>b.txt\<close> is
  logged as an unknown command.
\<close>

theorem send_path_with_delimiter_split:
  "socketConnected [qsl ''/tmp/a;b.txt''] [] = latin1 ''SEND:/tmp/a;b.txt;CMD:show;''
   \<and> cSendPaths (readClients (\<lambda>u. True)
      \<lparr>cSendPaths = [], cStartUrl = [], wnd = True, preLaunchWindow = False,
       application = True, applicationPid = 4711,
       localClients = [\<lparr>socketData = socketConnected [qsl ''/tmp/a;b.txt''] [],
                        socketWritten = [], second = []\<rparr>],
       effects = []\<rparr>) = [qsl ''/tmp/a'']
   \<and> effects (readClients (\<lambda>u. True)
      \<lparr>cSendPaths = [], cStartUrl = [], wnd = True, preLaunchWindow = False,
       application = True, applicationPid = 4711,
       localClients = [\<lparr>socketData = socketConnected [qsl ''/tmp/a;b.txt''] [],
                        socketWritten = [], second = []\<rparr>],
       effects = []\<rparr>)
     = [LogUnknownCommand (qsl ''b.txt''), ActivateMainWindow,
        MainWindowSendPaths [qsl ''/tmp/a''], ApplicationCheckStartUrl]"
proof -
  have w: "socketConnected [qsl ''/tmp/a;b.txt''] [] = latin1 ''SEND:/tmp/a;b.txt;CMD:show;''"
    by (simp add: socketConnected_def escapeTo7bit_eq escapeChar_def toLatin1_def qsl_def latin1_def)
  let ?c = "\<lparr>socketData = latin1 ''SEND:/tmp/a;b.txt;CMD:show;'', socketWritten = [], second = []\<rparr>"
  let ?p = "\<lparr>cSendPaths = [], cStartUrl = [], wnd = True, preLaunchWindow = False,
       application = True, applicationPid = 4711, localClients = [?c], effects = []\<rparr>"
  let ?st0 = "\<lparr>startUrl = [], toSend = [], called = [], dispatched = []\<rparr>"
  have d1: "second ?c @ socketData ?c
      = latin1 ''SEND:'' @ latin1 ''/tmp/a'' @ 0x3B # latin1 ''b.txt;CMD:show;''"
    by (simp add: latin1_def)
  have n1: "0x3B \<notin> set (latin1 ''/tmp/a'')" "0 \<notin> set (latin1 ''/tmp/a'')"
    by (simp_all add: latin1_def)
  let ?c1 = "?c\<lparr>second := [], socketData := latin1 ''b.txt;CMD:show;''\<rparr>"
  have d2: "second ?c1 @ socketData ?c1 = latin1 ''b.txt'' @ 0x3B # latin1 ''CMD:show;''"
    by (simp add: latin1_def)
  have n2: "0x3B \<notin> set (latin1 ''b.txt'')" "0 \<notin> set (latin1 ''b.txt'')"
    by (simp_all add: latin1_def)
  have l2: "fromLatin1 (latin1 ''b.txt'') = qsl ''b.txt''"
    by (simp add: fromLatin1_def latin1_def qsl_def)
  have t2: "\<not> prefix (qsl ''CMD:'') (fromLatin1 (latin1 ''b.txt''))"
    "\<not> prefix (qsl ''SEND:'') (fromLatin1 (latin1 ''b.txt''))"
    "\<not> prefix (qsl ''OPEN:'') (fromLatin1 (latin1 ''b.txt''))"
    unfolding l2 by (simp_all add: qsl_def)
  let ?c2 = "?c\<lparr>second := [], socketData := latin1 ''CMD:show;''\<rparr>"
  have d3: "second ?c2 @ socketData ?c2 = latin1 ''CMD:'' @ latin1 ''show'' @ 0x3B # []"
    by (simp add: latin1_def)
  have n3: "0x3B \<notin> set (latin1 ''show'')" "0 \<notin> set (latin1 ''show'')"
    by (simp_all add: latin1_def)
  have l: "escapeFrom7bit (fromLatin1 (latin1 ''/tmp/a'')) = qsl ''/tmp/a''"
    "fromLatin1 (latin1 ''show'') = qsl ''show''" "toLatin1 (number 4711) = latin1 ''4711''"
    "latin1 ''RES:'' @ latin1 ''4711'' @ latin1 '';'' = latin1 ''RES:4711;''"
    by (simp_all add: escapeFrom7bit_eq fromLatin1_def latin1_def qsl_def toLatin1_def number.simps)
  have "readClient (\<lambda>u. True) ?p ?c ?st0
      = readClient (\<lambda>u. True) ?p ?c1
          (?st0\<lparr>dispatched := [Send (qsl ''/tmp/a'')], toSend := [qsl ''/tmp/a'']\<rparr>)"
    unfolding step_send[OF d1 n1] l by simp
  also have "\<dots> = readClient (\<lambda>u. True) ?p ?c2
          (?st0\<lparr>dispatched := [Send (qsl ''/tmp/a''), Unknown (qsl ''b.txt'')],
                toSend := [qsl ''/tmp/a''], called := [LogUnknownCommand (qsl ''b.txt'')]\<rparr>)"
    using step_unknown[OF d2 n2 t2, of "\<lambda>u. True" ?p
        "?st0\<lparr>dispatched := [Send (qsl ''/tmp/a'')], toSend := [qsl ''/tmp/a'']\<rparr>"]
    unfolding l2 by simp
  also have "\<dots> = (\<lparr>socketData = [], socketWritten = latin1 ''RES:4711;'', second = []\<rparr>,
          \<lparr>startUrl = [], toSend = [qsl ''/tmp/a''],
           called = [LogUnknownCommand (qsl ''b.txt''), ActivateMainWindow],
           dispatched = [Send (qsl ''/tmp/a''), Unknown (qsl ''b.txt''), Cmd (qsl ''show'')]\<rparr>)"
    unfolding step_cmd[OF d3 n3]
    using readClient_done[of "\<lambda>u. True" ?p "?c\<lparr>socketWritten := latin1 ''RES:4711;''\<rparr>"]
    by (simp add: l)
  finally have r: "readClient (\<lambda>u. True) ?p ?c \<lparr>startUrl = [], toSend = [], called = effects ?p, dispatched = []\<rparr>
      = (\<lparr>socketData = [], socketWritten = latin1 ''RES:4711;'', second = []\<rparr>,
          \<lparr>startUrl = [], toSend = [qsl ''/tmp/a''],
           called = [LogUnknownCommand (qsl ''b.txt''), ActivateMainWindow],
           dispatched = [Send (qsl ''/tmp/a''), Unknown (qsl ''b.txt''), Cmd (qsl ''show'')]\<rparr>)"
    by simp
  have 1: "localClients ?p = [] @ ?c # []" by simp
  have 2: "\<forall>d \<in> set ([] @ []). idle d" by simp
  note rc = readClients_one_active[OF 1 2 r]
  show ?thesis
    unfolding w using rc(2) rc(4) by simp
qed

lemma unterminated_closed:
  assumes "xs = [] \<or> last xs = d"
  shows "unterminated d xs = []"
proof (cases "xs = []")
  case True
  then show ?thesis by (simp add: frames_none)
next
  case False
  then have xs: "xs = butlast xs @ [d]" using assms by (metis append_butlast_last_id)
  let ?u = "unterminated d (butlast xs)"
  have n: "d \<notin> set ?u" by (rule unterminated_no_delimiter)
  have "unterminated d (butlast xs @ [d]) = unterminated d (?u @ [d])"
    using frames_append[of d "butlast xs" "[d]"] by blast
  also have "\<dots> = unterminated d []"
    using frames_first(2)[OF n, of "[]"] by simp
  also have "\<dots> = []" by (simp add: frames_none)
  finally show ?thesis using xs by simp
qed

lemma frames_boundary:
  assumes "pre = [] \<or> last pre = 0x3B" and "0 \<notin> set pre"
  shows "frames 0x3B (takeWhile (\<lambda>b. b \<noteq> 0) (pre @ tail))
           = frames 0x3B (takeWhile (\<lambda>b. b \<noteq> 0) pre) @ frames 0x3B (takeWhile (\<lambda>b. b \<noteq> 0) tail)"
    and "kept (pre @ tail) = kept tail" and "kept pre = []"
proof -
  show k: "kept pre = []"
    unfolding kept_plain[OF assms(2)] by (rule unterminated_closed[OF assms(1)])
  show "frames 0x3B (takeWhile (\<lambda>b. b \<noteq> 0) (pre @ tail))
           = frames 0x3B (takeWhile (\<lambda>b. b \<noteq> 0) pre) @ frames 0x3B (takeWhile (\<lambda>b. b \<noteq> 0) tail)"
    unfolding kept_append(1)[of pre tail] k by simp
  show "kept (pre @ tail) = kept tail"
    unfolding kept_append(2)[of pre tail] k by simp
qed

lemma commandsIn_frame:
  assumes "0x3B \<notin> set f" and "0 \<notin> set f"
  shows "commandsIn (f @ 0x3B # rest) = commandOf (fromLatin1 f) # commandsIn rest"
  unfolding commandsIn_def frame_first(1)[OF assms] by simp

lemma commandsIn_boundary:
  assumes "pre = [] \<or> last pre = 0x3B" and "0 \<notin> set pre"
  shows "commandsIn (pre @ tail) = commandsIn pre @ commandsIn tail"
  unfolding commandsIn_def frames_boundary(1)[OF assms] by simp

lemma readClient_split:
  assumes "second c @ socketData c = pre @ tail" and "pre = [] \<or> last pre = 0x3B"
    and "0 \<notin> set pre"
  shows "readClient h p c st =
     readClient h p ((fst (readClient h p (c\<lparr>second := [], socketData := pre\<rparr>) st))
                        \<lparr>second := [], socketData := tail\<rparr>)
       (snd (readClient h p (c\<lparr>second := [], socketData := pre\<rparr>) st))"
proof -
  let ?pc = "\<lambda>cst f. processCommand h p f 0 (length f) cst"
  let ?F1 = "map fromLatin1 (frames 0x3B (takeWhile (\<lambda>b. b \<noteq> 0) pre))"
  let ?F2 = "map fromLatin1 (frames 0x3B (takeWhile (\<lambda>b. b \<noteq> 0) tail))"
  note fb = frames_boundary(1,2)[OF assms(2,3), of tail] frames_boundary(3)[OF assms(2,3)]
  obtain c1 st1 where a: "foldl ?pc (c, st) ?F1 = (c1, st1)"
    by (cases "foldl ?pc (c, st) ?F1")
  have r: "readClient h p (c\<lparr>second := [], socketData := pre\<rparr>) st
      = (c1\<lparr>second := [], socketData := []\<rparr>, st1)"
    by (subst readClient_fold) (simp add: foldl_buffer a fb(3))
  have L: "readClient h p c st =
      ((fst (foldl ?pc (c1, st1) ?F2))\<lparr>second := kept tail, socketData := []\<rparr>,
       snd (foldl ?pc (c1, st1) ?F2))"
    by (subst readClient_fold) (simp add: assms(1) fb(1,2) a)
  have R: "readClient h p (c1\<lparr>second := [], socketData := tail\<rparr>) st1 =
      ((fst (foldl ?pc (c1, st1) ?F2))\<lparr>second := kept tail, socketData := []\<rparr>,
       snd (foldl ?pc (c1, st1) ?F2))"
    by (subst readClient_fold) (simp add: foldl_buffer)
  show ?thesis
    unfolding r fst_conv snd_conv L using R by simp
qed

lemma processCommand_startUrl:
  assumes "cStartUrl p = []"
  shows "startUrl (snd (processCommand h p f 0 (length f) cst))
       = (case commandOf f of Open u \<Rightarrow> u | _ \<Rightarrow> startUrl (snd cst))"
  by (cases cst) (simp add: processCommand_whole commandOf_def execExternal_keeps assms)

lemma foldl_startUrl:
  assumes "cStartUrl p = []"
  shows "startUrl (snd (foldl (\<lambda>cst f. processCommand h p f 0 (length f) cst) cst fs))
       = foldl (\<lambda>url d. case d of Open u \<Rightarrow> u | _ \<Rightarrow> url) (startUrl (snd cst)) (map commandOf fs)"
  by (induction fs arbitrary: cst) (simp_all add: processCommand_startUrl[OF assms])

lemma readClient_startUrl:
  assumes "cStartUrl p = []"
  shows "startUrl (snd (readClient h p c st))
       = foldl (\<lambda>url d. case d of Open u \<Rightarrow> u | _ \<Rightarrow> url) (startUrl st)
           (commandsIn (second c @ socketData c))"
  unfolding commandsIn_def by (simp add: readClient_frames Let_def foldl_startUrl[OF assms])

lemma readEach_startUrl:
  assumes "cStartUrl p = []"
  shows "startUrl (snd (readEach h p cs st))
       = foldl (\<lambda>url d. case d of Open u \<Rightarrow> u | _ \<Rightarrow> url) (startUrl st)
           (concat (map (\<lambda>c. commandsIn (second c @ socketData c)) cs))"
  by (induction cs arbitrary: st) (simp_all add: Let_def readClient_startUrl[OF assms])

lemma readClients_startUrl:
  assumes "cStartUrl p = []"
  shows "cStartUrl (readClients h p)
       = lastOpen (concat (map (\<lambda>c. commandsIn (second c @ socketData c)) (localClients p)))"
proof -
  let ?st = "snd (readEach h p (localClients p)
                \<lparr>startUrl = [], toSend = [], called = effects p, dispatched = []\<rparr>)"
  have "cStartUrl (readClients h p) = startUrl ?st"
    using assms by (simp add: readClients_def Let_def)
  then show ?thesis
    unfolding lastOpen_def by (simp add: readEach_startUrl[OF assms])
qed

lemma lastOpen_after:
  "lastOpen (xs @ Open u # ys) = lastOpen (Open u # ys)"
  by (simp add: lastOpen_def)

lemma lastOpen_last:
  assumes "\<forall>v. Open v \<notin> set ys"
  shows "lastOpen (Open u # ys) = u"
proof -
  have "foldl (\<lambda>url d. case d of Open u \<Rightarrow> u | _ \<Rightarrow> url) x ys = x" for x
    using assms by (induction ys arbitrary: x) (auto split: command.splits)
  then show ?thesis by (simp add: lastOpen_def)
qed

text \<open>
  Claim C6, as amended. The Primary has no start URL queued, and one of its clients holds,
  at a frame boundary the loop reaches, the frame \<open>OPEN:<payload>;\<close> whose payload
  has no zero byte. The URL of the frame is the unescaped payload cut to at most 8192
  code units; for the escaped form of a text it is that text, cut. Handling the frame
  (after the frames before it, and before the bytes after it) writes one reply to the
  client and sets the local \<open>startUrl\<close>: when the hook
  \<open>StartUrlRequiresActivate\<close> is false for the URL the reply is exactly
  \<open>RES:0;\<close> and no window is activated, when it is true the \<open>show\<close>
  activation runs and the reply is \<open>RES:<own pid>;\<close>. After the call the pending
  start URL is that of the last \<open>OPEN\<close> frame handled in the call: the URL of
  this frame, unless an \<open>OPEN\<close> frame follows it in the same client's bytes or in
  those of a later client.
\<close>

theorem open_frame_stored:
  assumes "cStartUrl p = []"
    and "localClients p = before @ c # after"
    and "second c @ socketData c = pre @ latin1 ''OPEN:'' @ payload @ 0x3B # rest"
    and "pre = [] \<or> last pre = 0x3B" and "0 \<notin> set pre"
    and "0x3B \<notin> set payload" and "0 \<notin> set payload"
  shows "length (take 8192 (escapeFrom7bit (fromLatin1 payload))) \<le> 8192
     \<and> (\<forall>url. payload = toLatin1 (escapeTo7bit url)
            \<longrightarrow> take 8192 (escapeFrom7bit (fromLatin1 payload)) = take 8192 url)
     \<and> readClient h p c st =
         (let r = readClient h p (c\<lparr>second := [], socketData := pre\<rparr>) st
          in readClient h p
               ((fst r)\<lparr>socketWritten := socketWritten (fst r)
                     @ (if h (take 8192 (escapeFrom7bit (fromLatin1 payload)))
                        then latin1 ''RES:'' @ toLatin1 (number (applicationPid p)) @ latin1 '';''
                        else latin1 ''RES:0;''),
                  second := [], socketData := rest\<rparr>)
               ((snd r)\<lparr>dispatched := dispatched (snd r)
                     @ [Open (take 8192 (escapeFrom7bit (fromLatin1 payload)))],
                  startUrl := take 8192 (escapeFrom7bit (fromLatin1 payload)),
                  called := called (snd r)
                     @ (if h (take 8192 (escapeFrom7bit (fromLatin1 payload)))
                        then (if wnd p then [ActivateMainWindow]
                              else if preLaunchWindow p then [ActivatePreLaunchWindow] else [])
                        else [])\<rparr>))
     \<and> cStartUrl (readClients h p)
         = lastOpen (Open (take 8192 (escapeFrom7bit (fromLatin1 payload)))
                       # commandsIn rest
                       @ concat (map (\<lambda>d. commandsIn (second d @ socketData d)) after))
     \<and> ((\<forall>url. Open url \<notin> set (commandsIn rest
                                 @ concat (map (\<lambda>d. commandsIn (second d @ socketData d)) after)))
          \<longrightarrow> cStartUrl (readClients h p) = take 8192 (escapeFrom7bit (fromLatin1 payload)))"
proof -
  let ?url = "take 8192 (escapeFrom7bit (fromLatin1 payload))"
  let ?later = "commandsIn rest @ concat (map (\<lambda>d. commandsIn (second d @ socketData d)) after)"
  let ?r = "readClient h p (c\<lparr>second := [], socketData := pre\<rparr>) st"
  have 1: "length ?url \<le> 8192" by simp
  have 2: "?url = take 8192 url" if "payload = toLatin1 (escapeTo7bit url)" for url
  proof -
    have rt: "escapeFrom7bit (escapeTo7bit s) = s" for s
      by (simp add: escapeTo7bit_eq escapeFrom7bit_eq unescapeList_concat_escapeChar)
    show ?thesis unfolding that escapeTo7bit_latin1 rt ..
  qed
  have zero: "latin1 ''RES:'' @ toLatin1 (number 0) @ latin1 '';'' = latin1 ''RES:0;''"
    by (simp add: literals) (simp add: latin1_def)
  let ?c1 = "(fst ?r)\<lparr>second := [], socketData := latin1 ''OPEN:'' @ payload @ 0x3B # rest\<rparr>"
  have s: "readClient h p c st = readClient h p ?c1 (snd ?r)"
    by (rule readClient_split[OF assms(3,4,5)])
  have d: "second ?c1 @ socketData ?c1 = latin1 ''OPEN:'' @ payload @ 0x3B # rest" by simp
  have 3: "readClient h p c st =
         (let r = ?r
          in readClient h p
               ((fst r)\<lparr>socketWritten := socketWritten (fst r)
                     @ (if h ?url
                        then latin1 ''RES:'' @ toLatin1 (number (applicationPid p)) @ latin1 '';''
                        else latin1 ''RES:0;''),
                  second := [], socketData := rest\<rparr>)
               ((snd r)\<lparr>dispatched := dispatched (snd r) @ [Open ?url],
                  startUrl := ?url,
                  called := called (snd r)
                     @ (if h ?url
                        then (if wnd p then [ActivateMainWindow]
                              else if preLaunchWindow p then [ActivatePreLaunchWindow] else [])
                        else [])\<rparr>))"
    unfolding s step_open[OF d assms(6,7,1)] Let_def
    using zero by simp
  have f: "0x3B \<notin> set (latin1 ''OPEN:'' @ payload)" "0 \<notin> set (latin1 ''OPEN:'' @ payload)"
    using assms(6,7) literals(6,17) by simp_all
  have co: "commandOf (fromLatin1 (latin1 ''OPEN:'' @ payload)) = Open ?url"
    by (simp add: commandOf_def literals del: drop_append)
  have "commandsIn (second c @ socketData c)
      = commandsIn pre @ commandsIn ((latin1 ''OPEN:'' @ payload) @ 0x3B # rest)"
    unfolding assms(3) using commandsIn_boundary[OF assms(4,5)] by simp
  then have ci: "commandsIn (second c @ socketData c) = commandsIn pre @ Open ?url # commandsIn rest"
    unfolding commandsIn_frame[OF f] co .
  have "concat (map (\<lambda>d. commandsIn (second d @ socketData d)) (localClients p))
      = (concat (map (\<lambda>d. commandsIn (second d @ socketData d)) before) @ commandsIn pre)
          @ Open ?url # ?later"
    unfolding assms(2) by (simp add: ci)
  then have 4: "cStartUrl (readClients h p) = lastOpen (Open ?url # ?later)"
    unfolding readClients_startUrl[OF assms(1)] by (simp only: lastOpen_after)
  have 5: "cStartUrl (readClients h p) = ?url" if "\<forall>url. Open url \<notin> set ?later"
    unfolding 4 by (rule lastOpen_last[OF that])
  show ?thesis using 1 2 3 4 5 by blast
qed

theorem open_frame_stored_witness:
  "cStartUrl (readClients (\<lambda>u. u = qsl ''a%b'')
      \<lparr>cSendPaths = [], cStartUrl = [], wnd = True, preLaunchWindow = False,
       application = False, applicationPid = 4711,
       localClients = [\<lparr>socketData = latin1 ''OPEN:x;OPEN:a%0025b;'',
                        socketWritten = [], second = []\<rparr>],
       effects = []\<rparr>) = qsl ''a%b''
   \<and> readClient (\<lambda>u. u = qsl ''a%b'')
      \<lparr>cSendPaths = [], cStartUrl = [], wnd = True, preLaunchWindow = False,
       application = False, applicationPid = 4711,
       localClients = [\<lparr>socketData = latin1 ''OPEN:x;OPEN:a%0025b;'',
                        socketWritten = [], second = []\<rparr>],
       effects = []\<rparr>
      \<lparr>socketData = latin1 ''OPEN:x;OPEN:a%0025b;'', socketWritten = [], second = []\<rparr>
      \<lparr>startUrl = [], toSend = [], called = [], dispatched = []\<rparr>
     = (\<lparr>socketData = [], socketWritten = latin1 ''RES:0;RES:4711;'', second = []\<rparr>,
        \<lparr>startUrl = qsl ''a%b'', toSend = [], called = [ActivateMainWindow],
         dispatched = [Open (qsl ''x''), Open (qsl ''a%b'')]\<rparr>)"
proof -
  let ?h = "\<lambda>u. u = qsl ''a%b''"
  let ?c = "\<lparr>socketData = latin1 ''OPEN:x;OPEN:a%0025b;'', socketWritten = [], second = []\<rparr>"
  let ?p = "\<lparr>cSendPaths = [], cStartUrl = [], wnd = True, preLaunchWindow = False,
       application = False, applicationPid = 4711, localClients = [?c], effects = []\<rparr>"
  let ?st = "\<lparr>startUrl = [], toSend = [], called = [], dispatched = []\<rparr>"
  have 1: "cStartUrl ?p = []" by simp
  have 2: "localClients ?p = [] @ ?c # []" by simp
  have 3: "second ?c @ socketData ?c
      = latin1 ''OPEN:x;'' @ latin1 ''OPEN:'' @ latin1 ''a%0025b'' @ 0x3B # []"
    by (simp add: latin1_def)
  have 4: "latin1 ''OPEN:x;'' = [] \<or> last (latin1 ''OPEN:x;'') = 0x3B" by (simp add: latin1_def)
  have 5: "0 \<notin> set (latin1 ''OPEN:x;'')" by (simp add: latin1_def)
  have 6: "0x3B \<notin> set (latin1 ''a%0025b'')" and 7: "0 \<notin> set (latin1 ''a%0025b'')"
    by (simp_all add: latin1_def)
  note t = open_frame_stored[OF 1 2 3 4 5 6 7, of ?h ?st]
  have esc: "latin1 ''a%0025b'' = toLatin1 (escapeTo7bit (qsl ''a%b''))"
    by (simp add: escapeTo7bit_eq escapeChar_def toLatin1_def toHex_def qsl_def latin1_def)
  have dec: "take 8192 (escapeFrom7bit (fromLatin1 (latin1 ''a%0025b''))) = qsl ''a%b''"
    using t[THEN conjunct2, THEN conjunct1, rule_format, OF esc] by (simp add: qsl_def)
  have none: "commandsIn [] = []" by (simp add: commandsIn_def frames_none)
  have a: "cStartUrl (readClients ?h ?p) = qsl ''a%b''"
    using t[THEN conjunct2, THEN conjunct2, THEN conjunct2, THEN conjunct2] unfolding dec
    by (simp add: none)
  let ?cx = "?c\<lparr>second := [], socketData := latin1 ''OPEN:x;''\<rparr>"
  have d0: "second ?cx @ socketData ?cx = latin1 ''OPEN:'' @ latin1 ''x'' @ 0x3B # []"
    by (simp add: latin1_def)
  have n0: "0x3B \<notin> set (latin1 ''x'')" "0 \<notin> set (latin1 ''x'')" by (simp_all add: latin1_def)
  have l: "take 8192 (escapeFrom7bit (fromLatin1 (latin1 ''x''))) = qsl ''x''"
    "qsl ''x'' \<noteq> qsl ''a%b''" "toLatin1 (number 4711) = latin1 ''4711''"
    "toLatin1 (number 0) = latin1 ''0''"
    "latin1 ''RES:'' @ latin1 ''0'' @ latin1 '';'' = latin1 ''RES:0;''"
    "latin1 ''RES:0;'' @ latin1 ''RES:'' @ latin1 ''4711'' @ latin1 '';'' = latin1 ''RES:0;RES:4711;''"
    by (simp_all add: escapeFrom7bit_eq fromLatin1_def latin1_def qsl_def toLatin1_def number.simps)
  have r: "readClient ?h ?p ?cx ?st
      = (\<lparr>socketData = [], socketWritten = latin1 ''RES:0;'', second = []\<rparr>,
         \<lparr>startUrl = qsl ''x'', toSend = [], called = [], dispatched = [Open (qsl ''x'')]\<rparr>)"
    unfolding step_open[OF d0 n0 1] l
    using readClient_done[of ?h ?p "?c\<lparr>socketWritten := latin1 ''RES:0;''\<rparr>"]
    by (simp add: l)
  have b: "readClient ?h ?p ?c ?st
     = (\<lparr>socketData = [], socketWritten = latin1 ''RES:0;RES:4711;'', second = []\<rparr>,
        \<lparr>startUrl = qsl ''a%b'', toSend = [], called = [ActivateMainWindow],
         dispatched = [Open (qsl ''x''), Open (qsl ''a%b'')]\<rparr>)"
  proof -
    have r': "readClient ?h ?p \<lparr>socketData = latin1 ''OPEN:x;'', socketWritten = [], second = []\<rparr> ?st
      = (\<lparr>socketData = [], socketWritten = latin1 ''RES:0;'', second = []\<rparr>,
         \<lparr>startUrl = qsl ''x'', toSend = [], called = [], dispatched = [Open (qsl ''x'')]\<rparr>)"
      using r by simp
    have fin: "readClient ?h ?p \<lparr>socketData = [], socketWritten = latin1 ''RES:0;RES:4711;'', second = []\<rparr> st
      = (\<lparr>socketData = [], socketWritten = latin1 ''RES:0;RES:4711;'', second = []\<rparr>, st)" for st
      using readClient_done[of ?h ?p "?c\<lparr>socketWritten := latin1 ''RES:0;RES:4711;''\<rparr>" st]
      by simp
    note t3 = t[THEN conjunct2, THEN conjunct2, THEN conjunct1]
    show ?thesis
      by (subst t3) (simp add: Let_def r' l fin dec)
  qed
  show ?thesis using a b by blast
qed

text \<open>
  Claim C6 as stated fails: of two \<open>OPEN\<close> frames received in one read with no
  start URL queued, the URL stored is that of the second; the payload of the first is
  not stored.
\<close>

theorem open_frame_replaced_by_later_frame:
  "cStartUrl (readClients (\<lambda>u. False)
      \<lparr>cSendPaths = [], cStartUrl = [], wnd = True, preLaunchWindow = False,
       application = False, applicationPid = 4711,
       localClients = [\<lparr>socketData = latin1 ''OPEN:a;OPEN:b;'',
                        socketWritten = [], second = []\<rparr>],
       effects = []\<rparr>) = qsl ''b''
   \<and> map socketWritten (localClients (readClients (\<lambda>u. False)
      \<lparr>cSendPaths = [], cStartUrl = [], wnd = True, preLaunchWindow = False,
       application = False, applicationPid = 4711,
       localClients = [\<lparr>socketData = latin1 ''OPEN:a;OPEN:b;'',
                        socketWritten = [], second = []\<rparr>],
       effects = []\<rparr>)) = [latin1 ''RES:0;RES:0;'']"
proof -
  let ?h = "\<lambda>u :: qstring. False"
  let ?c = "\<lparr>socketData = latin1 ''OPEN:a;OPEN:b;'', socketWritten = [], second = []\<rparr>"
  let ?p = "\<lparr>cSendPaths = [], cStartUrl = [], wnd = True, preLaunchWindow = False,
       application = False, applicationPid = 4711, localClients = [?c], effects = []\<rparr>"
  let ?st = "\<lparr>startUrl = [], toSend = [], called = [], dispatched = []\<rparr>"
  have e: "cStartUrl ?p = []" by simp
  have d1: "second ?c @ socketData ?c = latin1 ''OPEN:'' @ latin1 ''a'' @ 0x3B # latin1 ''OPEN:b;''"
    by (simp add: latin1_def)
  have n1: "0x3B \<notin> set (latin1 ''a'')" "0 \<notin> set (latin1 ''a'')" by (simp_all add: latin1_def)
  let ?c1 = "?c\<lparr>socketWritten := latin1 ''RES:0;'', second := [], socketData := latin1 ''OPEN:b;''\<rparr>"
  have d2: "second ?c1 @ socketData ?c1 = latin1 ''OPEN:'' @ latin1 ''b'' @ 0x3B # []"
    by (simp add: latin1_def)
  have n2: "0x3B \<notin> set (latin1 ''b'')" "0 \<notin> set (latin1 ''b'')" by (simp_all add: latin1_def)
  have l: "take 8192 (escapeFrom7bit (fromLatin1 (latin1 ''a''))) = qsl ''a''"
    "take 8192 (escapeFrom7bit (fromLatin1 (latin1 ''b''))) = qsl ''b''"
    "toLatin1 (number 0) = latin1 ''0''"
    "latin1 ''RES:'' @ latin1 ''0'' @ latin1 '';'' = latin1 ''RES:0;''"
    "latin1 ''RES:0;'' @ latin1 ''RES:0;'' = latin1 ''RES:0;RES:0;''"
    by (simp_all add: escapeFrom7bit_eq fromLatin1_def latin1_def qsl_def toLatin1_def number.simps)
  have "readClient ?h ?p ?c ?st
      = readClient ?h ?p ?c1 (?st\<lparr>dispatched := [Open (qsl ''a'')], startUrl := qsl ''a''\<rparr>)"
    unfolding step_open[OF d1 n1 e] l by (simp add: l)
  also have "\<dots> = (\<lparr>socketData = [], socketWritten = latin1 ''RES:0;RES:0;'', second = []\<rparr>,
         \<lparr>startUrl = qsl ''b'', toSend = [], called = [],
          dispatched = [Open (qsl ''a''), Open (qsl ''b'')]\<rparr>)"
    unfolding step_open[OF d2 n2 e] l
    using readClient_done[of ?h ?p "?c\<lparr>socketWritten := latin1 ''RES:0;RES:0;''\<rparr>"]
    by (simp add: l)
  finally have r: "readClient ?h ?p ?c \<lparr>startUrl = [], toSend = [], called = effects ?p, dispatched = []\<rparr>
      = (\<lparr>socketData = [], socketWritten = latin1 ''RES:0;RES:0;'', second = []\<rparr>,
         \<lparr>startUrl = qsl ''b'', toSend = [], called = [],
          dispatched = [Open (qsl ''a''), Open (qsl ''b'')]\<rparr>)"
    by simp
  have 1: "localClients ?p = [] @ ?c # []" by simp
  have 2: "\<forall>d \<in> set ([] @ []). idle d" by simp
  note rc = readClients_one_active[OF 1 2 r]
  have "qsl ''b'' \<noteq> []" by (simp add: qsl_def)
  then show ?thesis
    using rc(1) rc(3) by simp
qed

text \<open>
  Claim C9 does not hold on the code. A client sends the frame \<open>CMD:\<close> with the
  payload \<open>a\<close>, a zero byte, \<open>b\<close>. \<open>QString::fromLatin1\<close> ends the text at
  the zero byte, so the loop finds no delimiter and writes no reply; the buffer keeps
  every byte.
\<close>

theorem cmd_zero_byte_payload_no_reply:
  "readClients (\<lambda>u. True)
      \<lparr>cSendPaths = [], cStartUrl = [], wnd = True, preLaunchWindow = False,
       application = True, applicationPid = 4711,
       localClients = [\<lparr>socketData = latin1 ''CMD:a'' @ 0 # latin1 ''b;'',
                        socketWritten = [], second = []\<rparr>],
       effects = []\<rparr>
   = \<lparr>cSendPaths = [], cStartUrl = [], wnd = True, preLaunchWindow = False,
       application = True, applicationPid = 4711,
       localClients = [\<lparr>socketData = [], socketWritten = [],
                        second = latin1 ''CMD:a'' @ 0 # latin1 ''b;''\<rparr>],
       effects = [ApplicationCheckStartUrl]\<rparr>"
proof -
  let ?c = "\<lparr>socketData = latin1 ''CMD:a'' @ 0 # latin1 ''b;'', socketWritten = [], second = []\<rparr>"
  let ?p = "\<lparr>cSendPaths = [], cStartUrl = [], wnd = True, preLaunchWindow = False,
       application = True, applicationPid = 4711, localClients = [?c], effects = []\<rparr>"
  let ?st0 = "\<lparr>startUrl = [], toSend = [], called = [], dispatched = []\<rparr>"
  have d: "second ?c @ socketData ?c = latin1 ''CMD:a'' @ 0 # latin1 ''b;''" by simp
  have n: "0x3B \<notin> set (latin1 ''CMD:a'')" "0 \<notin> set (latin1 ''CMD:a'')" by (simp_all add: latin1_def)
  have r: "readClient (\<lambda>u. True) ?p ?c ?st0
      = (\<lparr>socketData = [], socketWritten = [], second = latin1 ''CMD:a'' @ 0 # latin1 ''b;''\<rparr>, ?st0)"
    unfolding readClient_stuck[OF d n] by simp
  show ?thesis
    by (simp add: readClients_def Let_def r)
qed

text \<open>
  Claim C7 does not hold on the code. A client sends the frame made of \<open>A\<close>, a zero
  byte and \<open>B\<close>, which has none of the three tags, and then \<open>CMD:show;\<close>.
  \<open>QString::fromLatin1\<close> ends the text at the zero byte, so the loop finds no
  delimiter: the frame is not logged, the \<open>CMD\<close> frame after it is not handled (no
  reply, no activation), and the buffer keeps every byte, so that the same happens at
  each later read of this client.
\<close>

theorem zero_byte_frame_blocks_parsing:
  "readClients (\<lambda>u. True)
      \<lparr>cSendPaths = [], cStartUrl = [], wnd = True, preLaunchWindow = False,
       application = True, applicationPid = 4711,
       localClients = [\<lparr>socketData = latin1 ''A'' @ 0 # latin1 ''B;CMD:show;'',
                        socketWritten = [], second = []\<rparr>],
       effects = []\<rparr>
   = \<lparr>cSendPaths = [], cStartUrl = [], wnd = True, preLaunchWindow = False,
       application = True, applicationPid = 4711,
       localClients = [\<lparr>socketData = [], socketWritten = [],
                        second = latin1 ''A'' @ 0 # latin1 ''B;CMD:show;''\<rparr>],
       effects = [ApplicationCheckStartUrl]\<rparr>"
proof -
  let ?c = "\<lparr>socketData = latin1 ''A'' @ 0 # latin1 ''B;CMD:show;'', socketWritten = [], second = []\<rparr>"
  let ?p = "\<lparr>cSendPaths = [], cStartUrl = [], wnd = True, preLaunchWindow = False,
       application = True, applicationPid = 4711, localClients = [?c], effects = []\<rparr>"
  let ?st0 = "\<lparr>startUrl = [], toSend = [], called = [], dispatched = []\<rparr>"
  have d: "second ?c @ socketData ?c = latin1 ''A'' @ 0 # latin1 ''B;CMD:show;''" by simp
  have n: "0x3B \<notin> set (latin1 ''A'')" "0 \<notin> set (latin1 ''A'')" by (simp_all add: latin1_def)
  have r: "readClient (\<lambda>u. True) ?p ?c ?st0
      = (\<lparr>socketData = [], socketWritten = [], second = latin1 ''A'' @ 0 # latin1 ''B;CMD:show;''\<rparr>, ?st0)"
    unfolding readClient_stuck[OF d n] by simp
  show ?thesis
    by (simp add: readClients_def Let_def r)
qed

end
